theory Spec2Isabelle
  imports Main "HOL-Library.Word"
begin

section \<open>Semantic versions (internal/semver/semver.go)\<close>

text \<open>
  Go's \<open>int\<close> is the 64-bit two's-complement integer on the 64-bit platforms the
  program is built for; it is modelled as \<open>64 word\<close>, read with \<open>sint\<close>, compared
  with the signed orders \<open><s\<close> and \<open>\<le>s\<close>, and \<open>+\<close> wraps around as
  \<open>s.Patch++\<close> does.
\<close>

type_synonym go_int = "64 word"

record Semver =
  Major :: go_int
  Minor :: go_int
  Patch :: go_int
  BuildMetadata :: string

definition BumpPatch :: "Semver \<Rightarrow> Semver" where
  "BumpPatch s = s\<lparr>Patch := Patch s + 1\<rparr>"

definition BumpMinor :: "Semver \<Rightarrow> Semver" where
  "BumpMinor s = (let s1 = s\<lparr>Patch := 0\<rparr> in s1\<lparr>Minor := Minor s1 + 1\<rparr>)"

definition BumpMajor :: "Semver \<Rightarrow> Semver" where
  "BumpMajor s =
     (let s1 = s\<lparr>Patch := 0\<rparr>; s2 = s1\<lparr>Minor := 0\<rparr> in s2\<lparr>Major := Major s2 + 1\<rparr>)"

definition IsZero :: "Semver \<Rightarrow> bool" where
  "IsZero s \<longleftrightarrow> Major s = Minor s \<and> Minor s = Patch s \<and> Patch s = 0"

text \<open>
  \<open>Precedence\<close>: the \<open>switch\<close> of the source, case by case; the result is the Go
  integer 1, -1 or 0.
\<close>

definition Precedence :: "Semver \<Rightarrow> Semver \<Rightarrow> int" where
  "Precedence s1 s2 =
     (if Major s2 <s Major s1 then 1
      else if Major s1 <s Major s2 then - 1
      else if Minor s2 <s Minor s1 then 1
      else if Minor s1 <s Minor s2 then - 1
      else if Patch s2 <s Patch s1 then 1
      else if Patch s1 <s Patch s2 then - 1
      else 0)"

text \<open>The (major, minor, patch) triple of a version, as mathematical integers.\<close>

definition triple :: "Semver \<Rightarrow> int \<times> int \<times> int" where
  "triple s = (sint (Major s), sint (Minor s), sint (Patch s))"

text \<open>The lexicographic order on triples: major first, then minor, then patch.\<close>

fun lex_less :: "int \<times> int \<times> int \<Rightarrow> int \<times> int \<times> int \<Rightarrow> bool" where
  "lex_less (a1, b1, c1) (a2, b2, c2) \<longleftrightarrow>
     a1 < a2 \<or> (a1 = a2 \<and> (b1 < b2 \<or> (b1 = b2 \<and> c1 < c2)))"

subsection \<open>Decimal text: \<open>%d\<close> and \<open>strconv.Atoi\<close>\<close>

definition digit_char :: "nat \<Rightarrow> char" where
  "digit_char d = ''0123456789'' ! d"

definition is_digit :: "char \<Rightarrow> bool" where
  "is_digit c \<longleftrightarrow> (48::nat) \<le> of_char c \<and> (of_char c :: nat) \<le> 57"

definition digit_val :: "char \<Rightarrow> nat" where
  "digit_val c = of_char c - 48"

fun digits_of :: "nat \<Rightarrow> string" where
  "digits_of n = (if n < 10 then [digit_char n] else digits_of (n div 10) @ [digit_char (n mod 10)])"

declare digits_of.simps [simp del]

text \<open>The verb \<open>%d\<close> of \<open>fmt.Sprintf\<close> on an \<open>int\<close>.\<close>

definition fmt_d :: "go_int \<Rightarrow> string" where
  "fmt_d i = (if sint i < 0 then CHR ''-'' # digits_of (nat (- sint i)) else digits_of (nat (sint i)))"

datatype error =
    ErrSyntax
  | ErrRange
  | ErrValidation
  | ErrNotSemver
  | ErrRepository string
  | ErrNilPointer
  | ErrSliceBounds
  | Fatal error
  | Wrap string error

definition digits_val :: "string \<Rightarrow> nat" where
  "digits_val ds = foldl (\<lambda>acc c. 10 * acc + digit_val c) 0 ds"

text \<open>
  \<open>strconv.Atoi\<close> (Go standard library): an optional sign, then one or more decimal
  digits; a syntax error otherwise, a range error when the value does not fit \<open>int\<close>.
\<close>

definition Atoi :: "string \<Rightarrow> error + go_int" where
  "Atoi s =
     (let neg = (s \<noteq> [] \<and> hd s = CHR ''-'');
          ds = (if s \<noteq> [] \<and> (hd s = CHR ''-'' \<or> hd s = CHR ''+'') then tl s else s)
      in if ds = [] \<or> \<not> list_all is_digit ds then Inl ErrSyntax
         else if neg then
           (if digits_val ds \<le> 2 ^ 63 then Inr (- (word_of_nat (digits_val ds))) else Inl ErrRange)
         else
           (if digits_val ds < 2 ^ 63 then Inr (word_of_nat (digits_val ds)) else Inl ErrRange))"

subsection \<open>Formatting\<close>

definition NormalVersion :: "Semver \<Rightarrow> string" where
  "NormalVersion s = fmt_d (Major s) @ ''.'' @ fmt_d (Minor s) @ ''.'' @ fmt_d (Patch s)"

definition String :: "Semver \<Rightarrow> string" where
  "String s =
     (if BuildMetadata s \<noteq> []
      then fmt_d (Major s) @ ''.'' @ fmt_d (Minor s) @ ''.'' @ fmt_d (Patch s) @ ''+'' @ BuildMetadata s
      else NormalVersion s)"

section \<open>Regular expressions (the part of Go's \<open>regexp\<close> the two patterns use)\<close>

text \<open>
  Go's \<open>regexp\<close> returns the leftmost match and, among the matches that start there, the
  one a backtracking search finds first. The matcher below lists, for a pattern and a
  position in the text, every way the pattern can match there, in the order a backtracking
  search tries them; the first entry is the match Go reports. A state is the offset from the
  start of the text, the text still to read, and the text captured by each group so far
  (a group that took no part holds the empty string, as in the slice Go returns).
  Strings are byte sequences. Every class of the two patterns is ASCII except \<open>[\s\S]\<close>,
  which matches any character and is followed by nothing but the end of the pattern, so
  that reading it byte by byte captures the same text.
\<close>

datatype regex =
    Lit string
  | Class "(char \<times> char) list"
  | AnyChar
  | Cat regex regex
  | Alt regex regex
  | Star regex
  | Plus regex
  | Quest regex
  | Cap nat regex
  | BeginText
  | EndText

type_synonym mstate = "nat \<times> string \<times> (nat \<Rightarrow> string)"

text \<open>A class is a union of inclusive character ranges.\<close>

definition in_class :: "(char \<times> char) list \<Rightarrow> char \<Rightarrow> bool" where
  "in_class rs c =
     list_ex (\<lambda>(lo, hi). (of_char lo :: nat) \<le> of_char c \<and> (of_char c :: nat) \<le> of_char hi) rs"

text \<open>
  Greedy repetition: one more round first, then stopping here. A round that reads nothing
  is not repeated, so a text of \<open>k\<close> characters allows at most \<open>k\<close> rounds.
\<close>

primrec star_iter :: "(mstate \<Rightarrow> mstate list) \<Rightarrow> nat \<Rightarrow> mstate \<Rightarrow> mstate list" where
  "star_iter f 0 st = [st]"
| "star_iter f (Suc k) st =
     concat (map (star_iter f k) (filter (\<lambda>st'. fst st < fst st') (f st))) @ [st]"

fun step :: "regex \<Rightarrow> mstate \<Rightarrow> mstate list" where
  "step (Lit w) (n, s, caps) =
     (if take (length w) s = w then [(n + length w, drop (length w) s, caps)] else [])"
| "step (Class rs) (n, s, caps) =
     (case s of [] \<Rightarrow> [] | c # cs \<Rightarrow> if in_class rs c then [(Suc n, cs, caps)] else [])"
| "step AnyChar (n, s, caps) = (case s of [] \<Rightarrow> [] | c # cs \<Rightarrow> [(Suc n, cs, caps)])"
| "step (Cat r1 r2) st = concat (map (step r2) (step r1 st))"
| "step (Alt r1 r2) st = step r1 st @ step r2 st"
| "step (Star r) (n, s, caps) = star_iter (\<lambda>st'. step r st') (length s) (n, s, caps)"
| "step (Plus r) (n, s, caps) =
     concat (map (star_iter (\<lambda>st'. step r st') (length s)) (step r (n, s, caps)))"
| "step (Quest r) st = step r st @ [st]"
| "step (Cap i r) (n, s, caps) =
     map (\<lambda>(n', s', caps'). (n', s', caps'(i := take (n' - n) s))) (step r (n, s, caps))"
| "step BeginText (n, s, caps) = (if n = 0 then [(n, s, caps)] else [])"
| "step EndText (n, s, caps) = (if s = [] then [(n, s, caps)] else [])"

text \<open>The numbers of the capture groups of a pattern, in the order of their opening brackets.\<close>

fun subexps :: "regex \<Rightarrow> nat list" where
  "subexps (Cat r1 r2) = subexps r1 @ subexps r2"
| "subexps (Alt r1 r2) = subexps r1 @ subexps r2"
| "subexps (Star r) = subexps r"
| "subexps (Plus r) = subexps r"
| "subexps (Quest r) = subexps r"
| "subexps (Cap i r) = i # subexps r"
| "subexps _ = []"

text \<open>
  The leftmost match: the start positions are tried from left to right. The result is the
  matched text followed by the text of each group.
\<close>

fun search :: "regex \<Rightarrow> nat \<Rightarrow> string \<Rightarrow> string list option" where
  "search r n s =
     (case step r (n, s, \<lambda>_. []) of
        (n', s', caps) # _ \<Rightarrow> Some (take (n' - n) s # map caps (subexps r))
      | [] \<Rightarrow> (case s of [] \<Rightarrow> None | c # cs \<Rightarrow> search r (Suc n) cs))"

declare search.simps [simp del]

definition MatchString :: "regex \<Rightarrow> string \<Rightarrow> bool" where
  "MatchString r s \<longleftrightarrow> search r 0 s \<noteq> None"

text \<open>\<open>FindStringSubmatch\<close> returns \<open>nil\<close>, a slice of length 0, when there is no match.\<close>

definition FindStringSubmatch :: "regex \<Rightarrow> string \<Rightarrow> string list" where
  "FindStringSubmatch r s = (case search r 0 s of None \<Rightarrow> [] | Some submatch \<Rightarrow> submatch)"

text \<open>\<open>strings.Contains\<close>.\<close>

fun Contains :: "string \<Rightarrow> string \<Rightarrow> bool" where
  "Contains [] substr = (substr = [])"
| "Contains (c # cs) substr = (take (length substr) (c # cs) = substr \<or> Contains cs substr)"

subsection \<open>The semantic-version pattern \<open>SemverRegex\<close>\<close>

definition digit :: regex where
  "digit = Class [(CHR ''0'', CHR ''9'')]"

text \<open>\<open>0|[1-9]\d*\<close>\<close>

definition numeric :: regex where
  "numeric = Alt (Lit ''0'') (Cat (Class [(CHR ''1'', CHR ''9'')]) (Star digit))"

text \<open>\<open>[0-9a-zA-Z-]\<close>\<close>

definition alnum_dash :: "(char \<times> char) list" where
  "alnum_dash =
     [(CHR ''0'', CHR ''9''), (CHR ''a'', CHR ''z''), (CHR ''A'', CHR ''Z''), (CHR ''-'', CHR ''-'')]"

text \<open>\<open>0|[1-9]\d*|\d*[a-zA-Z-][0-9a-zA-Z-]*\<close>\<close>

definition prerelease_ident :: regex where
  "prerelease_ident =
     Alt (Lit ''0'')
    (Alt (Cat (Class [(CHR ''1'', CHR ''9'')]) (Star digit))
         (Cat (Star digit)
         (Cat (Class [(CHR ''a'', CHR ''z''), (CHR ''A'', CHR ''Z''), (CHR ''-'', CHR ''-'')])
              (Star (Class alnum_dash)))))"

text \<open>\<open>-(ident(?:\.ident)*)\<close>, the group being number 4.\<close>

definition prerelease :: regex where
  "prerelease =
     Cat (Lit ''-'') (Cap 4 (Cat prerelease_ident (Star (Cat (Lit ''.'') prerelease_ident))))"

text \<open>\<open>\+([0-9a-zA-Z-]+(?:\.[0-9a-zA-Z-]+)*)\<close>, the group being number 5.\<close>

definition build :: regex where
  "build =
     Cat (Lit ''+'')
         (Cap 5 (Cat (Plus (Class alnum_dash)) (Star (Cat (Lit ''.'') (Plus (Class alnum_dash))))))"

text \<open>The end of the pattern: \<open>(?:-...)?(?:\+...)?$\<close>.\<close>

definition semver_tail :: regex where
  "semver_tail = Cat (Quest prerelease) (Cat (Quest build) EndText)"

definition SemverRegex :: regex where
  "SemverRegex =
     Cat (Cap 1 numeric) (Cat (Lit ''.'')
    (Cat (Cap 2 numeric) (Cat (Lit ''.'')
    (Cat (Cap 3 numeric) semver_tail))))"

subsection \<open>Building a version\<close>

text \<open>
  \<open>NewSemver\<close> validates the struct with the tags \<open>gte=0\<close> on the three numbers and
  \<open>omitempty,alphanumunicode\<close> on the build metadata. The validator library's
  \<open>alphanumunicode\<close> test is a parameter.
\<close>

definition NewSemver ::
  "(string \<Rightarrow> bool) \<Rightarrow> go_int \<Rightarrow> go_int \<Rightarrow> go_int \<Rightarrow> string \<Rightarrow> error + Semver" where
  "NewSemver alphanumunicode major minor patch metadata =
     (let version = \<lparr>Major = major, Minor = minor, Patch = patch, BuildMetadata = metadata\<rparr>
      in if 0 \<le>s Major version \<and> 0 \<le>s Minor version \<and> 0 \<le>s Patch version
            \<and> (if BuildMetadata version = [] then True else alphanumunicode (BuildMetadata version))
         then Inr version
         else Inl (Wrap ''NewSemver: failed to validate struct'' ErrValidation))"

text \<open>An annotated tag (\<open>object.Tag\<close>): its name, the commit it points to, the tagger's time.\<close>

record Tag =
  Name :: string
  Target :: string
  Tagger_When :: int

definition NewSemverFromGitTag :: "(string \<Rightarrow> bool) \<Rightarrow> Tag \<Rightarrow> error + Semver" where
  "NewSemverFromGitTag alphanumunicode tag =
     (let submatch = FindStringSubmatch SemverRegex (Name tag)
      in if length submatch < 4 then Inl ErrNotSemver
         else case Atoi (submatch ! 1) of
           Inl err \<Rightarrow> Inl (Wrap ''NewSemverFromGitTag: failed to convert major component'' err)
         | Inr major \<Rightarrow>
         (case Atoi (submatch ! 2) of
           Inl err \<Rightarrow> Inl (Wrap ''NewSemverFromGitTag: failed to convert minor component'' err)
         | Inr minor \<Rightarrow>
         (case Atoi (submatch ! 3) of
           Inl err \<Rightarrow> Inl (Wrap ''NewSemverFromGitTag: failed to convert patch component'' err)
         | Inr patch \<Rightarrow>
         (case NewSemver alphanumunicode major minor patch [] of
           Inl err \<Rightarrow> Inl (Wrap ''NewSemverFromGitTag: failed to build SemVer'' err)
         | Inr semver \<Rightarrow> Inr semver))))"

section \<open>The commit analyzer (package commitanalyzer)\<close>

subsection \<open>The conventional-commit pattern\<close>

text \<open>\<open>\w\<close> is \<open>[0-9A-Za-z_]\<close>.\<close>

definition word_char :: "(char \<times> char) list" where
  "word_char =
     [(CHR ''0'', CHR ''9''), (CHR ''A'', CHR ''Z''), (CHR ''a'', CHR ''z''), (CHR ''_'', CHR ''_'')]"

definition commit_type_alt :: regex where
  "commit_type_alt =
     Alt (Lit ''build'') (Alt (Lit ''chore'') (Alt (Lit ''ci'') (Alt (Lit ''docs'')
    (Alt (Lit ''feat'') (Alt (Lit ''fix'') (Alt (Lit ''perf'') (Alt (Lit ''refactor'')
    (Alt (Lit ''revert'') (Alt (Lit ''style'') (Lit ''test''))))))))))"

text \<open>
  \<open>^(build|...|test){1}(\([\w\-\.\\\/]+\))?(!)?: ([\w ])+([\s\S]*)\<close>; the repetition
  \<open>{1}\<close> is the group itself.
\<close>

definition conventionalCommitRegex :: regex where
  "conventionalCommitRegex =
     Cat BeginText
    (Cat (Cap 1 commit_type_alt)
    (Cat (Quest (Cap 2 (Cat (Lit ''('')
                       (Cat (Plus (Class (word_char @ [(CHR ''-'', CHR ''-''), (CHR ''.'', CHR ''.''),
                                                       (CHR 0x5C, CHR 0x5C), (CHR ''/'', CHR ''/'')])))
                            (Lit '')'')))))
    (Cat (Quest (Cap 3 (Lit ''!'')))
    (Cat (Lit '': '')
    (Cat (Plus (Cap 4 (Class (word_char @ [(CHR '' '', CHR '' '')]))))
         (Cap 5 (Star AnyChar)))))))"

subsection \<open>Release rules\<close>

record ReleaseRule =
  CommitType :: string
  ReleaseType :: string

text \<open>
  \<open>Rules\<close> is a Go slice: \<open>None\<close> is the \<open>nil\<close> slice, which is what the field holds
  when the decoded document has no \<open>releaseRules\<close> array; \<open>Some []\<close> is the empty
  slice that the JSON decoder stores for an empty array.
\<close>

record ReleaseRules =
  Rules :: "ReleaseRule list option"

text \<open>Ranging over a \<open>nil\<close> slice visits nothing.\<close>

definition range_of :: "'a list option \<Rightarrow> 'a list" where
  "range_of xs = (case xs of None \<Rightarrow> [] | Some ys \<Rightarrow> ys)"

definition commit_types :: "string list" where
  "commit_types = [''build'', ''chore'', ''ci'', ''docs'', ''feat'', ''fix'', ''perf'',
                   ''refactor'', ''revert'', ''style'', ''test'']"

definition release_types :: "string list" where
  "release_types = [''major'', ''minor'', ''patch'']"

text \<open>
  The struct tags, as the validator library reads them: \<open>required\<close> on a string is
  "not empty", \<open>oneof\<close> is membership in the listed words, and \<open>required\<close> on a
  slice is "not nil".
\<close>

definition validate_ReleaseRule :: "ReleaseRule \<Rightarrow> bool" where
  "validate_ReleaseRule rule \<longleftrightarrow>
     CommitType rule \<noteq> [] \<and> CommitType rule \<in> set commit_types
     \<and> ReleaseType rule \<noteq> [] \<and> ReleaseType rule \<in> set release_types"

definition validate_ReleaseRules :: "ReleaseRules \<Rightarrow> bool" where
  "validate_ReleaseRules rs \<longleftrightarrow> Rules rs \<noteq> None"

fun validate_each :: "ReleaseRule list \<Rightarrow> bool" where
  "validate_each [] = True"
| "validate_each (rule # rules) = (if \<not> validate_ReleaseRule rule then False else validate_each rules)"

text \<open>
  \<open>ParseReleaseRules\<close>, from the value the JSON decoder left in \<open>releaseRules\<close>
  (\<open>None\<close>: the pointer is still \<open>nil\<close>, for which \<open>validate.Struct\<close> returns an error).
\<close>

definition ParseReleaseRules :: "ReleaseRules option \<Rightarrow> error + ReleaseRules" where
  "ParseReleaseRules decoded =
     (case decoded of
        None \<Rightarrow> Inl (Wrap ''ParseReleaseRules: failed to validate release rules'' ErrValidation)
      | Some releaseRules \<Rightarrow>
          if \<not> validate_ReleaseRules releaseRules
          then Inl (Wrap ''ParseReleaseRules: failed to validate release rules'' ErrValidation)
          else if \<not> validate_each (range_of (Rules releaseRules))
          then Inl (Wrap ''ParseReleaseRules: failed to validate release rules'' ErrValidation)
          else Inr releaseRules)"

record CommitAnalyzer =
  releaseRules :: ReleaseRules

definition NewCommitAnalyzer :: "ReleaseRules option \<Rightarrow> error + CommitAnalyzer" where
  "NewCommitAnalyzer decoded =
     (case ParseReleaseRules decoded of
        Inl err \<Rightarrow> Inl (Wrap ''NewCommitAnalyzer: failed parsing release rules'' err)
      | Inr rules \<Rightarrow> Inr \<lparr>releaseRules = rules\<rparr>)"

subsection \<open>The repository\<close>

text \<open>
  A commit: its hash in hexadecimal (40 characters) and its message. A repository, as far
  as the analyzer reads it: the tag objects in the order the iterator yields them, the head,
  and the log for a given \<open>Since\<close> option, newest commit first.
\<close>

record Commit =
  Hash :: string
  Message :: string

record Repository =
  TagObjects :: "error + Tag list"
  Head :: "error + string"
  Log :: "int option \<Rightarrow> error + Commit list"

subsection \<open>\<open>fetchLatestSemverTag\<close>\<close>

text \<open>
  The loop over two or more tags. \<open>latestSemverTag\<close> starts as the \<open>nil\<close> pointer
  (\<open>None\<close>) and is set at index 0.
\<close>

fun latest_loop :: "(string \<Rightarrow> bool) \<Rightarrow> nat \<Rightarrow> Tag list \<Rightarrow> Tag option \<Rightarrow> error + Tag option" where
  "latest_loop alphanumunicode i [] latestSemverTag = Inr latestSemverTag"
| "latest_loop alphanumunicode i (tag # tags) latestSemverTag =
     (case NewSemverFromGitTag alphanumunicode tag of
        Inl err \<Rightarrow> Inl (Wrap ''FetchLatestSemverTag: failed to build semver from tag'' err)
      | Inr current \<Rightarrow>
          if i = 0 then latest_loop alphanumunicode (Suc i) tags (Some tag)
          else (case latestSemverTag of
                  None \<Rightarrow> Inl ErrNilPointer
                | Some latest \<Rightarrow>
                    (case NewSemverFromGitTag alphanumunicode latest of
                       Inl err \<Rightarrow> Inl (Wrap ''FetchLatestSemverTag: failed to build semver from tag'' err)
                     | Inr old \<Rightarrow>
                         if Precedence current old = 1
                         then latest_loop alphanumunicode (Suc i) tags (Some tag)
                         else latest_loop alphanumunicode (Suc i) tags latestSemverTag)))"

text \<open>
  \<open>tagger.NewTag\<close> is not among the sources; it is the parameter \<open>NewTag\<close>. The result
  is the lines logged and the value returned.
\<close>

definition fetchLatestSemverTag ::
  "(string \<Rightarrow> bool) \<Rightarrow> (Semver \<Rightarrow> string \<Rightarrow> Tag) \<Rightarrow> Repository \<Rightarrow> string list \<times> (error + Tag)" where
  "fetchLatestSemverTag alphanumunicode NewTag r =
     (case TagObjects r of
        Inl err \<Rightarrow> ([], Inl err)
      | Inr tags \<Rightarrow>
          let semverTags = filter (\<lambda>tag. MatchString SemverRegex (Name tag)) tags
          in if length semverTags = 0 then
               (case Head r of
                  Inl err \<Rightarrow> ([''no previous tag, creating one''],
                              Inl (Wrap ''FetchLatestSemverTag: failed to fetch head'' err))
                | Inr head \<Rightarrow>
                    (case NewSemver alphanumunicode 0 0 0 [] of
                       Inl err \<Rightarrow> ([''no previous tag, creating one''],
                                   Inl (Wrap ''FetchLatestSemverTag: failed to build new semver'' err))
                     | Inr version \<Rightarrow> ([''no previous tag, creating one''], Inr (NewTag version head))))
             else if length semverTags = 1 then ([], Inr (semverTags ! 0))
             else (case latest_loop alphanumunicode 0 semverTags None of
                     Inl err \<Rightarrow> ([], Inl err)
                   | Inr None \<Rightarrow> ([], Inl ErrNilPointer)
                   | Inr (Some latestSemverTag) \<Rightarrow>
                       ([''latest semver tag: '' @ Name latestSemverTag], Inr latestSemverTag)))"

subsection \<open>\<open>shortMessage\<close>\<close>

text \<open>
  The lengths and slices are in bytes. On the empty message the slice \<open>message[0:-1]\<close>
  is out of range and the program panics: the result is \<open>None\<close>.
\<close>

definition shortMessage :: "string \<Rightarrow> string option" where
  "shortMessage message =
     (if length message > 60 then Some (take 57 message @ ''...'')
      else if message = [] then None
      else Some (take (length message - 1) message))"

subsection \<open>\<open>ComputeNewSemverNumber\<close>\<close>

text \<open>
  The state of the loops: the version, the flag \<open>newRelease\<close> and the lines logged so far.
\<close>

type_synonym bump_state = "Semver \<times> bool \<times> string list"

text \<open>The inner loop, over the release rules, for one commit.\<close>

fun apply_rules :: "ReleaseRule list \<Rightarrow> string \<Rightarrow> string \<Rightarrow> string \<Rightarrow> bump_state \<Rightarrow> bump_state" where
  "apply_rules [] commitType shortHash shortMsg st = st"
| "apply_rules (rule # rules) commitType shortHash shortMsg (semver, newRelease, logged) =
     (if commitType \<noteq> CommitType rule
      then apply_rules rules commitType shortHash shortMsg (semver, newRelease, logged)
      else
        let (semver', newRelease', logged') =
              (if ReleaseType rule = ''patch'' then
                 (BumpPatch semver, True,
                  logged @ [''('' @ shortHash @ '') patch: '' @ [CHR 0x22] @ shortMsg @ [CHR 0x22]])
               else if ReleaseType rule = ''minor'' then
                 (BumpMinor semver, True,
                  logged @ [''('' @ shortHash @ '') minor: '' @ [CHR 0x22] @ shortMsg @ [CHR 0x22]])
               else if ReleaseType rule = ''major'' then
                 (BumpMajor semver, True,
                  logged @ [''('' @ shortHash @ '') major: '' @ [CHR 0x22] @ shortMsg @ [CHR 0x22]])
               else (semver, newRelease, logged @ [''no release to apply'']))
        in apply_rules rules commitType shortHash shortMsg
             (semver', newRelease', logged' @ [''version is now '' @ String semver']))"

text \<open>The loop over the history, oldest commit first; \<open>break\<close> ends it.\<close>

fun bump_loop :: "ReleaseRule list \<Rightarrow> Commit list \<Rightarrow> bump_state \<Rightarrow> error + bump_state" where
  "bump_loop rules [] st = Inr st"
| "bump_loop rules (commit # history) (semver, newRelease, logged) =
     (if \<not> MatchString conventionalCommitRegex (Message commit)
      then bump_loop rules history (semver, newRelease, logged)
      else
        let submatch = FindStringSubmatch conventionalCommitRegex (Message commit);
            breakingChange =
              (Contains (submatch ! 3) ''!'' \<or> Contains (submatch ! 0) ''BREAKING CHANGE'');
            commitType = submatch ! 1;
            shortHash = take 7 (Hash commit)
        in case shortMessage (Message commit) of
             None \<Rightarrow> Inl ErrSliceBounds
           | Some shortMsg \<Rightarrow>
               if breakingChange
               then Inr (BumpMajor semver, True, logged @ [''('' @ shortHash @ '') breaking change''])
               else bump_loop rules history
                      (apply_rules rules commitType shortHash shortMsg (semver, newRelease, logged)))"

definition ComputeNewSemverNumber ::
  "(string \<Rightarrow> bool) \<Rightarrow> (Semver \<Rightarrow> string \<Rightarrow> Tag) \<Rightarrow> CommitAnalyzer \<Rightarrow> Repository
     \<Rightarrow> string list \<times> (error + Semver \<times> bool)" where
  "ComputeNewSemverNumber alphanumunicode NewTag c r =
     (case fetchLatestSemverTag alphanumunicode NewTag r of
        (logged, Inl err) \<Rightarrow> (logged, Inl (Wrap ''failed to fetch latest semver'' err))
      | (logged, Inr latestSemverTag) \<Rightarrow>
          (case NewSemverFromGitTag alphanumunicode latestSemverTag of
             Inl err \<Rightarrow> (logged, Inl (Wrap ''failed to build semver from git tag'' err))
           | Inr semver \<Rightarrow>
               let since = (if \<not> IsZero semver then Some (Tagger_When latestSemverTag) else None)
               in case Log r since of
                    Inl err \<Rightarrow> (logged @ [''failed to fetch commit history''], Inl (Fatal err))
                  | Inr commitHistory \<Rightarrow>
                      (case bump_loop (range_of (Rules (releaseRules c))) (rev commitHistory)
                              (semver, False, logged) of
                         Inl err \<Rightarrow> (logged, Inl err)
                       | Inr (semver', newRelease, logged') \<Rightarrow> (logged', Inr (semver', newRelease)))))"

text \<open>
  The variant of the loop that the specification's rationale compares with: the same loop
  without the \<open>break\<close>, so that the commits after a breaking one are folded too.
\<close>

fun bump_loop_continue :: "ReleaseRule list \<Rightarrow> Commit list \<Rightarrow> bump_state \<Rightarrow> error + bump_state" where
  "bump_loop_continue rules [] st = Inr st"
| "bump_loop_continue rules (commit # history) (semver, newRelease, logged) =
     (if \<not> MatchString conventionalCommitRegex (Message commit)
      then bump_loop_continue rules history (semver, newRelease, logged)
      else
        let submatch = FindStringSubmatch conventionalCommitRegex (Message commit);
            breakingChange =
              (Contains (submatch ! 3) ''!'' \<or> Contains (submatch ! 0) ''BREAKING CHANGE'');
            commitType = submatch ! 1;
            shortHash = take 7 (Hash commit)
        in case shortMessage (Message commit) of
             None \<Rightarrow> Inl ErrSliceBounds
           | Some shortMsg \<Rightarrow>
               if breakingChange
               then bump_loop_continue rules history
                      (BumpMajor semver, True, logged @ [''('' @ shortHash @ '') breaking change''])
               else bump_loop_continue rules history
                      (apply_rules rules commitType shortHash shortMsg (semver, newRelease, logged)))"

subsection \<open>Notions used to state the properties\<close>

text \<open>
  The classification of a commit message, with the expressions of the loop: whether it is a
  breaking change, and its type.
\<close>

definition breakingChange_of :: "string \<Rightarrow> bool" where
  "breakingChange_of message =
     (let submatch = FindStringSubmatch conventionalCommitRegex message
      in Contains (submatch ! 3) ''!'' \<or> Contains (submatch ! 0) ''BREAKING CHANGE'')"

definition commitType_of :: "string \<Rightarrow> string" where
  "commitType_of message = FindStringSubmatch conventionalCommitRegex message ! 1"

text \<open>A commit is classified as breaking when its message matches and is a breaking change.\<close>

definition breaking :: "Commit \<Rightarrow> bool" where
  "breaking c \<longleftrightarrow>
     MatchString conventionalCommitRegex (Message c) \<and> breakingChange_of (Message c)"

text \<open>
  A commit that can trigger nothing: its message does not match the grammar, or it is not a
  breaking change and no rule has its type.
\<close>

definition inert :: "ReleaseRule list \<Rightarrow> Commit \<Rightarrow> bool" where
  "inert rules d \<longleftrightarrow>
     (if MatchString conventionalCommitRegex (Message d)
      then \<not> breakingChange_of (Message d)
           \<and> list_all (\<lambda>rule. CommitType rule \<noteq> commitType_of (Message d)) rules
      else True)"

text \<open>
  The summary of a message with its length counted in characters rather than in bytes. A
  character of a UTF-8 text is a byte that is not a continuation byte (\<open>0x80\<close> to
  \<open>0xBF\<close>) together with the continuation bytes that follow it; a byte below
  \<open>0x80\<close> is a character by itself.
\<close>

definition is_continuation :: "char \<Rightarrow> bool" where
  "is_continuation c \<longleftrightarrow> (128::nat) \<le> of_char c \<and> (of_char c :: nat) < 192"

primrec characters :: "string \<Rightarrow> string list" where
  "characters [] = []"
| "characters (c # cs) =
     (case characters cs of
        [] \<Rightarrow> [[c]]
      | x # xs \<Rightarrow> if is_continuation (hd x) then (c # x) # xs else [c] # x # xs)"

definition summary_in_characters :: "string \<Rightarrow> string" where
  "summary_in_characters message =
     (let cs = characters message
      in if length cs > 60 then concat (take 57 cs) @ ''...'' else concat (butlast cs))"

definition single_byte :: "char \<Rightarrow> bool" where
  "single_byte c \<longleftrightarrow> (of_char c :: nat) < 128"

text \<open>The bump a severity stands for; any other word stands for no bump.\<close>

definition bump_for :: "string \<Rightarrow> Semver \<Rightarrow> Semver" where
  "bump_for release s =
     (if release = ''patch'' then BumpPatch s
      else if release = ''minor'' then BumpMinor s
      else if release = ''major'' then BumpMajor s
      else s)"

text \<open>
  The pairwise reduction of the tag resolver, in the specification's words: the retained tag
  is replaced by the next one only when the next one's version has strictly greater
  precedence. The version of a tag is what \<open>NewSemverFromGitTag\<close> returns for it.
\<close>

definition version_of :: "(string \<Rightarrow> bool) \<Rightarrow> Tag \<Rightarrow> Semver" where
  "version_of alphanumunicode tag = projr (NewSemverFromGitTag alphanumunicode tag)"

definition keep_greater :: "(string \<Rightarrow> bool) \<Rightarrow> Tag \<Rightarrow> Tag \<Rightarrow> Tag" where
  "keep_greater alphanumunicode retained tag =
     (if Precedence (version_of alphanumunicode tag) (version_of alphanumunicode retained) = 1
      then tag else retained)"

definition reduce_pairwise :: "(string \<Rightarrow> bool) \<Rightarrow> Tag list \<Rightarrow> Tag" where
  "reduce_pairwise alphanumunicode tags = foldl (keep_greater alphanumunicode) (hd tags) (tl tags)"

text \<open>The text of three numbers separated by dots.\<close>

definition dotted :: "nat \<Rightarrow> nat \<Rightarrow> nat \<Rightarrow> string" where
  "dotted a b c = digits_of a @ CHR ''.'' # digits_of b @ CHR ''.'' # digits_of c"

text \<open>
  A suffix of a tag name that the end of the semantic-version pattern accepts: nothing, a
  pre-release, build metadata, or both.
\<close>

definition tail_accepts :: "string \<Rightarrow> bool" where
  "tail_accepts suf \<longleftrightarrow> step semver_tail (0, suf, \<lambda>_. []) \<noteq> []"

text \<open>Whether a pattern contains \<open>^\<close>.\<close>

fun has_BeginText :: "regex \<Rightarrow> bool" where
  "has_BeginText BeginText = True"
| "has_BeginText (Cat r1 r2) = (has_BeginText r1 \<or> has_BeginText r2)"
| "has_BeginText (Alt r1 r2) = (has_BeginText r1 \<or> has_BeginText r2)"
| "has_BeginText (Star r) = has_BeginText r"
| "has_BeginText (Plus r) = has_BeginText r"
| "has_BeginText (Quest r) = has_BeginText r"
| "has_BeginText (Cap i r) = has_BeginText r"
| "has_BeginText _ = False"

text \<open>Two matcher states that read the same text at offsets that differ by \<open>d\<close>.\<close>

definition shifted :: "int \<Rightarrow> mstate \<Rightarrow> mstate \<Rightarrow> bool" where
  "shifted d a b \<longleftrightarrow> int (fst b) = int (fst a) + d \<and> fst (snd b) = fst (snd a)"

text \<open>
  A state reached from another by reading some of its text, and a pattern whose first match
  always reads the text to its end.
\<close>

definition advanced :: "mstate \<Rightarrow> mstate \<Rightarrow> bool" where
  "advanced a b \<longleftrightarrow>
     (\<exists>k \<le> length (fst (snd a)). fst b = fst a + k \<and> fst (snd b) = drop k (fst (snd a)))"

definition reads_all :: "regex \<Rightarrow> bool" where
  "reads_all r \<longleftrightarrow> (\<forall>st x xs. step r st = x # xs \<longrightarrow> fst (snd x) = [])"

text \<open>The largest of the three components of a version and 0.\<close>

definition largest_component :: "Semver \<Rightarrow> int" where
  "largest_component v = max (sint (Major v)) (max (sint (Minor v)) (max (sint (Patch v)) 0))"

text \<open>Definitions unfolded to evaluate the patterns and the loops on given texts.\<close>

lemmas regex_defs =
  search.simps FindStringSubmatch_def MatchString_def conventionalCommitRegex_def commit_type_alt_def
  word_char_def in_class_def SemverRegex_def semver_tail_def numeric_def digit_def
  alnum_dash_def prerelease_def prerelease_ident_def build_def

lemmas eval_defs = regex_defs shortMessage_def BumpMajor_def BumpMinor_def BumpPatch_def
  String_def NormalVersion_def fmt_d_def digit_char_def breaking_def
  breakingChange_of_def commitType_of_def

lemmas parse_defs = NewSemverFromGitTag_def NewSemver_def Atoi_def is_digit_def digits_val_def
  digit_val_def word_sle_eq

section \<open>Precedence is a strict total order on triples\<close>

lemma Precedence_values: "Precedence a b \<in> {1, - 1, 0}"
  by (simp add: Precedence_def)

lemma Precedence_greater: "Precedence a b = 1 \<longleftrightarrow> lex_less (triple b) (triple a)"
  by (auto simp add: Precedence_def triple_def word_sless_alt)

lemma Precedence_less: "Precedence a b = - 1 \<longleftrightarrow> lex_less (triple a) (triple b)"
  by (auto simp add: Precedence_def triple_def word_sless_alt)

lemma Precedence_equal: "Precedence a b = 0 \<longleftrightarrow> triple a = triple b"
  by (auto simp add: Precedence_def triple_def word_sless_alt)

text \<open>
  C5. \<open>Precedence\<close> returns 1, -1 or 0, and exactly as the lexicographic order on
  (major, minor, patch) says: 1 when the first triple is greater, -1 when it is less, 0 when
  the triples are equal (so exactly one of the three holds); greater-than is transitive; build
  metadata does not take part.
\<close>

theorem Precedence_strict_total_order:
  "Precedence a b \<in> {1, - 1, 0}
   \<and> (Precedence a b = 1 \<longleftrightarrow> lex_less (triple b) (triple a))
   \<and> (Precedence a b = - 1 \<longleftrightarrow> lex_less (triple a) (triple b))
   \<and> (Precedence a b = 0 \<longleftrightarrow> triple a = triple b)
   \<and> (Precedence a b = 1 \<longleftrightarrow> Precedence b a = - 1)
   \<and> (Precedence a b = 1 \<and> Precedence b c = 1 \<longrightarrow> Precedence a c = 1)
   \<and> (Precedence a b = - 1 \<and> Precedence b c = - 1 \<longrightarrow> Precedence a c = - 1)
   \<and> (Precedence a b = 0 \<and> Precedence b c = 0 \<longrightarrow> Precedence a c = 0)
   \<and> Precedence (a\<lparr>BuildMetadata := m\<rparr>) (b\<lparr>BuildMetadata := m'\<rparr>) = Precedence a b"
proof -
  have tr: "lex_less x y \<Longrightarrow> lex_less y z \<Longrightarrow> lex_less x z" for x y z
    by (cases x; cases y; cases z) auto
  have sym: "Precedence a b = 1 \<longleftrightarrow> Precedence b a = - 1"
    by (simp add: Precedence_greater Precedence_less)
  have t1: "Precedence a b = 1 \<and> Precedence b c = 1 \<longrightarrow> Precedence a c = 1"
    unfolding Precedence_greater using tr by blast
  have t2: "Precedence a b = - 1 \<and> Precedence b c = - 1 \<longrightarrow> Precedence a c = - 1"
    unfolding Precedence_less using tr by blast
  have t3: "Precedence a b = 0 \<and> Precedence b c = 0 \<longrightarrow> Precedence a c = 0"
    unfolding Precedence_equal by simp
  have bm: "Precedence (a\<lparr>BuildMetadata := m\<rparr>) (b\<lparr>BuildMetadata := m'\<rparr>) = Precedence a b"
    by (simp add: Precedence_def)
  show ?thesis
    using Precedence_values Precedence_greater Precedence_less Precedence_equal sym t1 t2 t3 bm
    by blast
qed

theorem Precedence_strict_total_order_witness:
  "Precedence \<lparr>Major = 2, Minor = 0, Patch = 0, BuildMetadata = []\<rparr>
              \<lparr>Major = 1, Minor = 2, Patch = 0, BuildMetadata = []\<rparr> = 1
   \<and> Precedence \<lparr>Major = 1, Minor = 2, Patch = 0, BuildMetadata = []\<rparr>
                \<lparr>Major = 1, Minor = 0, Patch = 0, BuildMetadata = []\<rparr> = 1
   \<and> Precedence \<lparr>Major = 2, Minor = 0, Patch = 0, BuildMetadata = []\<rparr>
                \<lparr>Major = 1, Minor = 0, Patch = 0, BuildMetadata = []\<rparr> = 1"
  using Precedence_strict_total_order
    [of "\<lparr>Major = 2, Minor = 0, Patch = 0, BuildMetadata = []\<rparr>"
        "\<lparr>Major = 1, Minor = 2, Patch = 0, BuildMetadata = []\<rparr>"
        "\<lparr>Major = 1, Minor = 0, Patch = 0, BuildMetadata = []\<rparr>"]
  by (simp add: Precedence_def word_sless_alt)

section \<open>Decimal text\<close>

lemma digit_char_code: "d < 10 \<Longrightarrow> (of_char (digit_char d) :: nat) = 48 + d"
proof -
  assume "d < 10"
  then have "d = 0 \<or> d = 1 \<or> d = 2 \<or> d = 3 \<or> d = 4 \<or> d = 5 \<or> d = 6 \<or> d = 7
    \<or> d = 8 \<or> d = 9" by presburger
  then show ?thesis by (elim disjE) (simp_all add: digit_char_def)
qed

lemma is_digit_digit_char: "d < 10 \<Longrightarrow> is_digit (digit_char d)"
  by (simp add: is_digit_def digit_char_code)

lemma digit_val_digit_char: "d < 10 \<Longrightarrow> digit_val (digit_char d) = d"
  by (simp add: digit_val_def digit_char_code)

lemma digit_char_zero: "d < 10 \<Longrightarrow> digit_char d = CHR ''0'' \<longleftrightarrow> d = 0"
proof -
  assume d: "d < 10"
  have "digit_char d = CHR ''0'' \<Longrightarrow> d = 0"
  proof -
    assume "digit_char d = CHR ''0''"
    then have "(of_char (digit_char d) :: nat) = of_char CHR ''0''" by simp
    then show "d = 0" using digit_char_code [OF d] by simp
  qed
  then show ?thesis by (auto simp add: digit_char_def)
qed

lemma digits_of_small: "n < 10 \<Longrightarrow> digits_of n = [digit_char n]"
  by (simp add: digits_of.simps)

lemma digits_of_large: "\<not> n < 10 \<Longrightarrow> digits_of n = digits_of (n div 10) @ [digit_char (n mod 10)]"
  by (subst digits_of.simps) simp

lemma digits_of_all_digits: "list_all is_digit (digits_of n)"
proof (induction n rule: digits_of.induct)
  case (1 n)
  show ?case
  proof (cases "n < 10")
    case True
    then show ?thesis by (simp add: digits_of_small is_digit_digit_char)
  next
    case False
    then show ?thesis using 1 by (simp add: digits_of_large is_digit_digit_char)
  qed
qed

lemma digits_of_not_Nil: "digits_of n \<noteq> []"
  by (subst digits_of.simps) simp

lemma digits_val_snoc: "digits_val (ds @ [c]) = 10 * digits_val ds + digit_val c"
  by (simp add: digits_val_def)

lemma digits_val_digits_of: "digits_val (digits_of n) = n"
proof (induction n rule: digits_of.induct)
  case (1 n)
  show ?case
  proof (cases "n < 10")
    case True
    then show ?thesis by (simp add: digits_of_small digits_val_def digit_val_digit_char)
  next
    case False
    then show ?thesis using 1 by (simp add: digits_of_large digits_val_snoc digit_val_digit_char)
  qed
qed

lemma hd_digits_of_zero: "hd (digits_of n) = CHR ''0'' \<longleftrightarrow> n = 0"
proof (induction n rule: digits_of.induct)
  case (1 n)
  show ?case
  proof (cases "n < 10")
    case True
    then show ?thesis by (simp add: digits_of_small digit_char_zero)
  next
    case False
    then have "hd (digits_of n) = hd (digits_of (n div 10))"
      by (simp add: digits_of_large digits_of_not_Nil)
    then show ?thesis using 1 False by simp
  qed
qed

lemma digits_of_0: "digits_of 0 = ''0''"
  by (simp add: digits_of_small digit_char_def)

lemma digits_of_split:
  "\<exists>d ds. digits_of n = d # ds \<and> is_digit d \<and> list_all is_digit ds \<and> (d = CHR ''0'' \<longleftrightarrow> n = 0)"
proof -
  obtain d ds where e: "digits_of n = d # ds"
    using digits_of_not_Nil [of n] by (cases "digits_of n") auto
  then show ?thesis
    using digits_of_all_digits [of n] hd_digits_of_zero [of n] by auto
qed

section \<open>Round trip of a number\<close>

lemma Atoi_digits_of:
  assumes "n < 2 ^ 63"
  shows "Atoi (digits_of n) = Inr (word_of_nat n)"
proof -
  obtain d ds where e: "digits_of n = d # ds" and d: "is_digit d" and ds: "list_all is_digit ds"
    using digits_of_split [of n] by blast
  from d have nosign: "d \<noteq> CHR ''-''" "d \<noteq> CHR ''+''" by (auto simp add: is_digit_def)
  have v: "digits_val (d # ds) = n" using digits_val_digits_of [of n] e by simp
  show ?thesis
    unfolding e using nosign d ds v assms by (simp add: Atoi_def)
qed

lemma fmt_d_nonneg:
  fixes x :: go_int
  assumes "0 \<le>s x"
  shows "fmt_d x = digits_of (nat (sint x))"
  using assms by (simp add: fmt_d_def word_sle_eq)

lemma nat_sint_bound:
  fixes x :: go_int
  shows "nat (sint x) < 2 ^ 63"
  using sint_lt [of x] by (simp add: nat_less_iff)

lemma word_of_nat_sint:
  fixes x :: go_int
  assumes "0 \<le>s x"
  shows "word_of_nat (nat (sint x)) = x"
  using assms by (simp add: word_sle_eq)

section \<open>The semantic-version pattern on a formatted version\<close>

lemma of_char_zero: "(of_char c :: nat) = 48 \<longleftrightarrow> c = CHR ''0''"
proof
  assume "(of_char c :: nat) = 48"
  then have "(of_char c :: nat) = of_char CHR ''0''" by simp
  then show "c = CHR ''0''" by (rule of_char_eqI)
next
  assume "c = CHR ''0''"
  then show "(of_char c :: nat) = 48" by simp
qed

lemma in_class_digit: "in_class [(CHR ''0'', CHR ''9'')] c = is_digit c"
  by (simp add: in_class_def is_digit_def)

lemma in_class_nonzero: "in_class [(CHR ''1'', CHR ''9'')] c \<longleftrightarrow> is_digit c \<and> c \<noteq> CHR ''0''"
proof -
  have "c \<noteq> CHR ''0'' \<longleftrightarrow> (of_char c :: nat) \<noteq> 48" by (simp add: of_char_zero)
  then show ?thesis by (auto simp add: in_class_def is_digit_def)
qed

lemma step_digit:
  "step digit (n, s, caps) =
     (case s of [] \<Rightarrow> [] | c # cs \<Rightarrow> if is_digit c then [(Suc n, cs, caps)] else [])"
  by (cases s) (simp_all add: digit_def in_class_digit)

text \<open>
  The greedy repetition of a digit on a run of digits that is followed by no digit: the
  first result reads the whole run, every other result stops before a digit.
\<close>

lemma star_digit:
  assumes "list_all is_digit ds" and "rest = [] \<or> \<not> is_digit (hd rest)" and "length ds \<le> k"
  shows "\<exists>others. star_iter (\<lambda>st'. step digit st') k (n, ds @ rest, caps)
             = (n + length ds, rest, caps) # others
           \<and> (\<forall>(n', s', caps') \<in> set others. s' \<noteq> [] \<and> is_digit (hd s') \<and> caps' = caps)"
  using assms
proof (induction ds arbitrary: n k)
  case Nil
  have none: "step digit (n, rest, caps) = []"
    using Nil.prems(2) by (cases rest) (auto simp add: step_digit)
  have "star_iter (\<lambda>st'. step digit st') k (n, rest, caps) = [(n, rest, caps)]"
    by (cases k) (simp_all add: none)
  then show ?case by simp
next
  case (Cons d ds)
  from Cons.prems obtain k' where k: "k = Suc k'" and k': "length ds \<le> k'"
    by (cases k) auto
  from Cons.prems have d: "is_digit d" and ds: "list_all is_digit ds" by simp_all
  from Cons.IH [OF ds Cons.prems(2) k', of "Suc n"] obtain others where
    ih: "star_iter (\<lambda>st'. step digit st') k' (Suc n, ds @ rest, caps)
           = (Suc n + length ds, rest, caps) # others"
    and oth: "\<forall>(n', s', caps') \<in> set others. s' \<noteq> [] \<and> is_digit (hd s') \<and> caps' = caps"
    by blast
  have "star_iter (\<lambda>st'. step digit st') k (n, (d # ds) @ rest, caps)
          = (n + length (d # ds), rest, caps) # (others @ [(n, (d # ds) @ rest, caps)])"
    unfolding k using d ih by (simp add: step_digit)
  moreover have "\<forall>(n', s', caps') \<in> set (others @ [(n, (d # ds) @ rest, caps)]).
                   s' \<noteq> [] \<and> is_digit (hd s') \<and> caps' = caps"
    using oth d by auto
  ultimately show ?case by blast
qed

lemma step_numeric:
  assumes "rest = [] \<or> \<not> is_digit (hd rest)"
  shows "\<exists>others. step numeric (n, digits_of a @ rest, caps)
             = (n + length (digits_of a), rest, caps) # others
           \<and> (\<forall>(n', s', caps') \<in> set others. s' \<noteq> [] \<and> is_digit (hd s') \<and> caps' = caps)"
proof (cases "a = 0")
  case True
  have "step numeric (n, digits_of a @ rest, caps) = [(n + length (digits_of a), rest, caps)]"
    unfolding True digits_of_0 by (simp add: numeric_def in_class_def)
  then show ?thesis by simp
next
  case False
  obtain d ds where e: "digits_of a = d # ds" and d: "is_digit d" and ds: "list_all is_digit ds"
    and z: "d = CHR ''0'' \<longleftrightarrow> a = 0"
    using digits_of_split [of a] by blast
  from z False have nz: "d \<noteq> CHR ''0''" by simp
  from star_digit [OF ds assms, of "length (ds @ rest)" "Suc n" caps] obtain others where
    st: "star_iter (\<lambda>st'. step digit st') (length (ds @ rest)) (Suc n, ds @ rest, caps)
           = (Suc n + length ds, rest, caps) # others"
    and oth: "\<forall>(n', s', caps') \<in> set others. s' \<noteq> [] \<and> is_digit (hd s') \<and> caps' = caps"
    by auto
  have "step numeric (n, digits_of a @ rest, caps)
          = (n + length (digits_of a), rest, caps) # others"
    unfolding e numeric_def using nz d st by (simp add: in_class_nonzero)
  with oth show ?thesis by blast
qed

lemma step_Cap_numeric:
  assumes "rest = [] \<or> \<not> is_digit (hd rest)"
  shows "\<exists>others. step (Cap i numeric) (n, digits_of a @ rest, caps)
             = (n + length (digits_of a), rest, caps(i := digits_of a)) # others
           \<and> (\<forall>(n', s', caps') \<in> set others. s' \<noteq> [] \<and> is_digit (hd s'))"
proof -
  from step_numeric [OF assms, of n a caps] obtain others where
    st: "step numeric (n, digits_of a @ rest, caps)
           = (n + length (digits_of a), rest, caps) # others"
    and oth: "\<forall>(n', s', caps') \<in> set others. s' \<noteq> [] \<and> is_digit (hd s') \<and> caps' = caps"
    by blast
  let ?g = "\<lambda>(n', s', caps'). (n', s', caps'(i := take (n' - n) (digits_of a @ rest)))"
  have "step (Cap i numeric) (n, digits_of a @ rest, caps)
          = (n + length (digits_of a), rest, caps(i := digits_of a)) # map ?g others"
    by (simp add: st)
  moreover have "\<forall>(n', s', caps') \<in> set (map ?g others). s' \<noteq> [] \<and> is_digit (hd s')"
    using oth by auto
  ultimately show ?thesis by blast
qed

text \<open>A number followed by a dot: only the reading of the whole number goes on.\<close>

lemma step_numeric_dot:
  "step (Cat (Cap i numeric) (Cat (Lit ''.'') r)) (n, digits_of a @ CHR ''.'' # rest, caps)
     = step r (n + length (digits_of a) + 1, rest, caps(i := digits_of a))"
proof -
  have nd: "CHR ''.'' # rest = [] \<or> \<not> is_digit (hd (CHR ''.'' # rest))"
    by (simp add: is_digit_def)
  from step_Cap_numeric [OF nd, of i n a caps] obtain others where
    st: "step (Cap i numeric) (n, digits_of a @ CHR ''.'' # rest, caps)
           = (n + length (digits_of a), CHR ''.'' # rest, caps(i := digits_of a)) # others"
    and oth: "\<forall>(n', s', caps') \<in> set others. s' \<noteq> [] \<and> is_digit (hd s')"
    by blast
  have dead: "step (Cat (Lit ''.'') r) st' = []" if "st' \<in> set others" for st'
  proof -
    obtain n' s' caps' where st': "st' = (n', s', caps')" using prod_cases3 by blast
    with oth that have "s' \<noteq> []" and "is_digit (hd s')" by auto
    then obtain c cs where s': "s' = c # cs" and c: "is_digit c" by (cases s') auto
    from c have "c \<noteq> CHR ''.''" by (auto simp add: is_digit_def)
    then show ?thesis by (simp add: st' s')
  qed
  then have none: "concat (map (step (Cat (Lit ''.'') r)) others) = []" by simp
  have "step (Cat (Cap i numeric) (Cat (Lit ''.'') r)) (n, digits_of a @ CHR ''.'' # rest, caps)
          = concat (map (step (Cat (Lit ''.'') r))
              (step (Cap i numeric) (n, digits_of a @ CHR ''.'' # rest, caps)))"
    by (simp only: step.simps)
  also have "\<dots> = step (Cat (Lit ''.'') r)
                      (n + length (digits_of a), CHR ''.'' # rest, caps(i := digits_of a))"
    unfolding st using none by simp
  also have "\<dots> = step r (n + length (digits_of a) + 1, rest, caps(i := digits_of a))"
    by simp
  finally show ?thesis .
qed

lemma semver_tail_dead:
  assumes "c \<noteq> CHR ''-''" and "c \<noteq> CHR ''+''"
  shows "step semver_tail (n, c # cs, caps) = []"
  using assms by (simp add: semver_tail_def prerelease_def build_def)

lemma semver_tail_end: "step semver_tail (n, [], caps) = [(n, [], caps)]"
  by (simp add: semver_tail_def prerelease_def build_def)

text \<open>The last number: only the reading of the whole number reaches the end of the pattern.\<close>

lemma step_numeric_tail:
  assumes "suf = [] \<or> \<not> is_digit (hd suf)"
  shows "step (Cat (Cap i numeric) semver_tail) (n, digits_of a @ suf, caps)
     = step semver_tail (n + length (digits_of a), suf, caps(i := digits_of a))"
proof -
  from step_Cap_numeric [OF assms, of i n a caps] obtain others where
    st: "step (Cap i numeric) (n, digits_of a @ suf, caps)
           = (n + length (digits_of a), suf, caps(i := digits_of a)) # others"
    and oth: "\<forall>(n', s', caps') \<in> set others. s' \<noteq> [] \<and> is_digit (hd s')"
    by blast
  have dead: "step semver_tail st' = []" if "st' \<in> set others" for st'
  proof -
    obtain n' s' caps' where st': "st' = (n', s', caps')" using prod_cases3 by blast
    with oth that have "s' \<noteq> []" and "is_digit (hd s')" by auto
    then obtain c cs where s': "s' = c # cs" and c: "is_digit c" by (cases s') auto
    from c have "c \<noteq> CHR ''-''" "c \<noteq> CHR ''+''" by (auto simp add: is_digit_def)
    then show ?thesis unfolding st' s' by (rule semver_tail_dead)
  qed
  then have none: "concat (map (step semver_tail) others) = []" by simp
  have "step (Cat (Cap i numeric) semver_tail) (n, digits_of a @ suf, caps)
          = concat (map (step semver_tail) (step (Cap i numeric) (n, digits_of a @ suf, caps)))"
    by (simp only: step.simps)
  also have "\<dots> = step semver_tail (n + length (digits_of a), suf, caps(i := digits_of a))"
    unfolding st using none by simp
  finally show ?thesis .
qed

lemma step_SemverRegex_dotted:
  assumes "suf = [] \<or> \<not> is_digit (hd suf)"
  shows "step SemverRegex (n, dotted a b c @ suf, caps)
     = step semver_tail (n + length (dotted a b c), suf,
         caps(1 := digits_of a, 2 := digits_of b, 3 := digits_of c))"
proof -
  have "step SemverRegex (n, dotted a b c @ suf, caps)
      = step (Cat (Cap 2 numeric) (Cat (Lit ''.'') (Cat (Cap 3 numeric) semver_tail)))
          (n + length (digits_of a) + 1, digits_of b @ CHR ''.'' # digits_of c @ suf,
           caps(1 := digits_of a))"
    unfolding SemverRegex_def dotted_def using step_numeric_dot [of 1] by simp
  also have "\<dots> = step (Cat (Cap 3 numeric) semver_tail)
          (n + length (digits_of a) + 1 + length (digits_of b) + 1, digits_of c @ suf,
           caps(1 := digits_of a, 2 := digits_of b))"
    by (rule step_numeric_dot)
  also have "\<dots> = step semver_tail
          (n + length (digits_of a) + 1 + length (digits_of b) + 1 + length (digits_of c), suf,
           caps(1 := digits_of a, 2 := digits_of b, 3 := digits_of c))"
    by (rule step_numeric_tail [OF assms])
  finally show ?thesis by (simp add: dotted_def add.assoc)
qed

lemma subexps_SemverRegex: "subexps SemverRegex = [1, 2, 3, 4, 5]"
  by (simp add: SemverRegex_def semver_tail_def prerelease_def build_def numeric_def
      prerelease_ident_def digit_def)

lemma search_found:
  "step r (n, t, \<lambda>_. []) = (n', s', caps') # others \<Longrightarrow>
     search r n t = Some (take (n' - n) t # map caps' (subexps r))"
  by (subst search.simps) simp

lemma search_next:
  "step r (n, c # cs, \<lambda>_. []) = [] \<Longrightarrow> search r n (c # cs) = search r (Suc n) cs"
  by (subst search.simps) simp

lemma SemverRegex_needs_digit:
  assumes "\<not> is_digit c"
  shows "step SemverRegex (n, c # cs, caps) = []"
proof -
  from assms have "c \<noteq> CHR ''0''" by (auto simp add: is_digit_def)
  with assms show ?thesis
    by (simp add: SemverRegex_def numeric_def in_class_nonzero)
qed

lemma search_skips_prefix:
  "\<forall>c \<in> set s. \<not> is_digit c \<Longrightarrow>
     search SemverRegex n (s @ t) = search SemverRegex (n + length s) t"
proof (induction s arbitrary: n)
  case Nil
  show ?case by simp
next
  case (Cons c s)
  then have c: "\<not> is_digit c" and s: "\<forall>c \<in> set s. \<not> is_digit c" by simp_all
  have "search SemverRegex n ((c # s) @ t) = search SemverRegex (Suc n) (s @ t)"
    using search_next [OF SemverRegex_needs_digit [OF c]] by simp
  also have "\<dots> = search SemverRegex (Suc n + length s) t" by (rule Cons.IH [OF s])
  finally show ?case by simp
qed

lemma search_some_prefix:
  "(\<And>n. step r (n, t, \<lambda>_. []) \<noteq> []) \<Longrightarrow> search r n (s @ t) \<noteq> None"
proof (induction s arbitrary: n)
  case Nil
  from Nil [of n] obtain st others where "step r (n, t, \<lambda>_. []) = st # others"
    by (cases "step r (n, t, \<lambda>_. [])") auto
  then show ?case by (cases st) (simp add: search_found)
next
  case (Cons c s)
  show ?case
  proof (cases "step r (n, (c # s) @ t, \<lambda>_. [])")
    case Nil
    then have "search r n ((c # s) @ t) = search r (Suc n) (s @ t)"
      using search_next [of r n c "s @ t"] by simp
    then show ?thesis using Cons.IH [OF Cons.prems] by simp
  next
    case (Cons st others)
    then show ?thesis by (cases st) (simp add: search_found)
  qed
qed

section \<open>Groups a pattern does not contain keep their text\<close>

lemma star_iter_caps:
  assumes "\<And>a b. b \<in> set (f a) \<Longrightarrow> snd (snd b) i = snd (snd a) i"
  shows "b \<in> set (star_iter f k a) \<Longrightarrow> snd (snd b) i = snd (snd a) i"
proof (induction k arbitrary: a b)
  case 0
  then show ?case by simp
next
  case (Suc k)
  from Suc.prems consider "b = a"
    | mid where "mid \<in> set (f a)" and "b \<in> set (star_iter f k mid)" by auto
  then show ?case
  proof cases
    case 1
    then show ?thesis by simp
  next
    case 2
    then show ?thesis using Suc.IH [of b mid] assms [of mid a] by simp
  qed
qed

lemma step_caps:
  "i \<notin> set (subexps r) \<Longrightarrow> b \<in> set (step r a) \<Longrightarrow> snd (snd b) i = snd (snd a) i"
proof (induction r arbitrary: a b)
  case (Lit w)
  then show ?case by (cases a) (auto split: if_splits)
next
  case (Class rs)
  then show ?case by (cases a) (auto split: if_splits list.splits)
next
  case AnyChar
  then show ?case by (cases a) (auto split: list.splits)
next
  case (Cat r1 r2)
  from Cat.prems obtain mid where "mid \<in> set (step r1 a)" and "b \<in> set (step r2 mid)" by auto
  then show ?case using Cat.IH(1) [of mid a] Cat.IH(2) [of b mid] Cat.prems(1) by simp
next
  case (Alt r1 r2)
  from Alt.prems(1) have i1: "i \<notin> set (subexps r1)" and i2: "i \<notin> set (subexps r2)"
    by simp_all
  from Alt.prems(2) have "b \<in> set (step r1 a) \<or> b \<in> set (step r2 a)" by simp
  then show ?case using Alt.IH(1) [OF i1] Alt.IH(2) [OF i2] by blast
next
  case (Star r)
  obtain n s caps where a: "a = (n, s, caps)" using prod_cases3 by blast
  from Star.prems have "b \<in> set (star_iter (\<lambda>st'. step r st') (length s) a)" by (simp add: a)
  then show ?case using star_iter_caps [of "\<lambda>st'. step r st'" i b "length s" a] Star by simp
next
  case (Plus r)
  obtain n s caps where a: "a = (n, s, caps)" using prod_cases3 by blast
  from Plus.prems obtain mid where m: "mid \<in> set (step r a)"
    and b: "b \<in> set (star_iter (\<lambda>st'. step r st') (length s) mid)" by (auto simp add: a)
  have "snd (snd b) i = snd (snd mid) i"
    using star_iter_caps [of "\<lambda>st'. step r st'" i b "length s" mid] Plus b by simp
  then show ?case using Plus.IH [of mid a] m Plus.prems(1) by simp
next
  case (Quest r)
  from Quest.prems(1) have i1: "i \<notin> set (subexps r)" by simp
  from Quest.prems(2) have "b \<in> set (step r a) \<or> b = a" by auto
  then show ?case using Quest.IH [OF i1] by blast
next
  case (Cap j r)
  obtain n s caps where a: "a = (n, s, caps)" using prod_cases3 by blast
  from Cap.prems have ne: "i \<noteq> j" and ni: "i \<notin> set (subexps r)" by simp_all
  from Cap.prems(2) obtain n' s' caps' where m: "(n', s', caps') \<in> set (step r a)"
    and b: "b = (n', s', caps'(j := take (n' - n) s))" by (auto simp add: a)
  show ?case using Cap.IH [OF ni m] ne by (simp add: b)
next
  case BeginText
  then show ?case by (cases a) (auto split: if_splits)
next
  case EndText
  then show ?case by (cases a) (auto split: if_splits)
qed

section \<open>A pattern without \<open>^\<close> matches the same way at every offset\<close>

lemma list_all2_concat_map:
  assumes "list_all2 A xs ys" and "\<And>x y. A x y \<Longrightarrow> list_all2 B (f x) (g y)"
  shows "list_all2 B (concat (map f xs)) (concat (map g ys))"
  using assms(1)
proof (induction rule: list_all2_induct)
  case Nil
  show ?case by simp
next
  case (Cons x xs y ys)
  then show ?case using assms(2) [of x y] by (simp add: list_all2_appendI)
qed

lemma list_all2_filter:
  assumes "list_all2 A xs ys" and "\<And>x y. A x y \<Longrightarrow> P x = Q y"
  shows "list_all2 A (filter P xs) (filter Q ys)"
  using assms(1)
proof (induction rule: list_all2_induct)
  case Nil
  show ?case by simp
next
  case (Cons x xs y ys)
  then show ?case using assms(2) [of x y] by simp
qed

lemma star_iter_shifted:
  assumes "\<And>a b. shifted d a b \<Longrightarrow> list_all2 (shifted d) (f a) (g b)"
  shows "shifted d a b \<Longrightarrow> list_all2 (shifted d) (star_iter f k a) (star_iter g k b)"
proof (induction k arbitrary: a b)
  case 0
  then show ?case by simp
next
  case (Suc k)
  have fg: "list_all2 (shifted d) (f a) (g b)" by (rule assms [OF Suc.prems])
  have "list_all2 (shifted d) (filter (\<lambda>st'. fst a < fst st') (f a))
          (filter (\<lambda>st'. fst b < fst st') (g b))"
    using fg
  proof (rule list_all2_filter)
    fix x y assume "shifted d x y"
    with Suc.prems show "(fst a < fst x) = (fst b < fst y)"
      by (auto simp add: shifted_def)
  qed
  then have "list_all2 (shifted d)
               (concat (map (star_iter f k) (filter (\<lambda>st'. fst a < fst st') (f a))))
               (concat (map (star_iter g k) (filter (\<lambda>st'. fst b < fst st') (g b))))"
    by (rule list_all2_concat_map) (rule Suc.IH)
  then show ?case using Suc.prems by (simp add: list_all2_appendI)
qed

lemma step_shifted:
  "\<not> has_BeginText r \<Longrightarrow> shifted d a b \<Longrightarrow> list_all2 (shifted d) (step r a) (step r b)"
proof (induction r arbitrary: a b)
  case (Lit w)
  then show ?case by (cases a; cases b) (auto simp add: shifted_def)
next
  case (Class rs)
  then show ?case by (cases a; cases b) (auto simp add: shifted_def split: list.splits)
next
  case AnyChar
  then show ?case by (cases a; cases b) (auto simp add: shifted_def split: list.splits)
next
  case (Cat r1 r2)
  then have "list_all2 (shifted d) (step r1 a) (step r1 b)" by simp
  then have "list_all2 (shifted d) (concat (map (step r2) (step r1 a)))
               (concat (map (step r2) (step r1 b)))"
    by (rule list_all2_concat_map) (use Cat in simp)
  then show ?case by simp
next
  case (Alt r1 r2)
  then show ?case by (simp add: list_all2_appendI)
next
  case (Star r)
  obtain n s caps where a: "a = (n, s, caps)" using prod_cases3 by blast
  obtain m t caps2 where b: "b = (m, t, caps2)" using prod_cases3 by blast
  from Star.prems(2) have ts: "t = s" by (simp add: shifted_def a b)
  have "list_all2 (shifted d) (star_iter (\<lambda>st'. step r st') (length s) a)
          (star_iter (\<lambda>st'. step r st') (length s) b)"
    by (rule star_iter_shifted) (use Star in simp_all)
  then show ?case by (simp add: a b ts)
next
  case (Plus r)
  obtain n s caps where a: "a = (n, s, caps)" using prod_cases3 by blast
  obtain m t caps2 where b: "b = (m, t, caps2)" using prod_cases3 by blast
  from Plus.prems(2) have ts: "t = s" by (simp add: shifted_def a b)
  have first: "list_all2 (shifted d) (step r a) (step r b)" using Plus by simp
  have "list_all2 (shifted d)
          (concat (map (star_iter (\<lambda>st'. step r st') (length s)) (step r a)))
          (concat (map (star_iter (\<lambda>st'. step r st') (length s)) (step r b)))"
    using first
  proof (rule list_all2_concat_map)
    fix x y assume "shifted d x y"
    then show "list_all2 (shifted d) (star_iter (\<lambda>st'. step r st') (length s) x)
                 (star_iter (\<lambda>st'. step r st') (length s) y)"
      by (rule star_iter_shifted [rotated]) (use Plus in simp_all)
  qed
  then show ?case by (simp add: a b ts)
next
  case (Quest r)
  then show ?case by (simp add: list_all2_appendI)
next
  case (Cap j r)
  obtain n s caps where a: "a = (n, s, caps)" using prod_cases3 by blast
  obtain m t caps2 where b: "b = (m, t, caps2)" using prod_cases3 by blast
  have "list_all2 (shifted d) (step r a) (step r b)" using Cap by simp
  then have "list_all2 (shifted d)
               (map (\<lambda>(n', s', caps'). (n', s', caps'(j := take (n' - n) s))) (step r a))
               (map (\<lambda>(n', s', caps'). (n', s', caps'(j := take (n' - m) t))) (step r b))"
    by (auto simp add: list_all2_map1 list_all2_map2 shifted_def elim!: list_all2_mono)
  then show ?case by (simp add: a b)
next
  case BeginText
  then show ?case by simp
next
  case EndText
  then show ?case by (cases a; cases b) (auto simp add: shifted_def)
qed

lemma step_nonempty_anywhere:
  assumes "\<not> has_BeginText r" and "step r (n, s, caps) \<noteq> []"
  shows "step r (m, s, caps2) \<noteq> []"
proof -
  have "shifted (int m - int n) (n, s, caps) (m, s, caps2)" by (simp add: shifted_def)
  from step_shifted [OF assms(1) this] have
    "length (step r (n, s, caps)) = length (step r (m, s, caps2))"
    by (rule list_all2_lengthD)
  with assms(2) show ?thesis by auto
qed

lemma semver_tail_no_BeginText: "\<not> has_BeginText semver_tail"
  by (simp add: semver_tail_def prerelease_def build_def prerelease_ident_def digit_def)

lemma tail_accepts_anywhere:
  assumes "tail_accepts suf"
  shows "step semver_tail (n, suf, caps) \<noteq> []"
proof -
  from assms have "step semver_tail (0, suf, \<lambda>_. []) \<noteq> []" by (simp add: tail_accepts_def)
  then show ?thesis by (rule step_nonempty_anywhere [OF semver_tail_no_BeginText])
qed

lemma tail_accepts_first:
  assumes "tail_accepts suf"
  shows "suf = [] \<or> \<not> is_digit (hd suf)"
proof (cases suf)
  case Nil
  then show ?thesis by simp
next
  case (Cons c cs)
  have "c = CHR ''-'' \<or> c = CHR ''+''"
  proof (rule ccontr)
    assume "\<not> (c = CHR ''-'' \<or> c = CHR ''+'')"
    then have "step semver_tail (0, c # cs, \<lambda>_. []) = []" by (simp add: semver_tail_dead)
    with assms Cons show False by (simp add: tail_accepts_def)
  qed
  then show ?thesis by (auto simp add: Cons is_digit_def)
qed

section \<open>Parsing the text of a version\<close>

lemma NormalVersion_dotted:
  assumes "0 \<le>s Major v" and "0 \<le>s Minor v" and "0 \<le>s Patch v"
  shows "NormalVersion v = dotted (nat (sint (Major v))) (nat (sint (Minor v))) (nat (sint (Patch v)))"
  using assms by (simp add: NormalVersion_def dotted_def fmt_d_nonneg)

lemma subexps_semver_tail: "subexps semver_tail = [4, 5]"
  by (simp add: semver_tail_def prerelease_def build_def prerelease_ident_def digit_def)

lemma step_SemverRegex_version_text:
  assumes "tail_accepts suf"
  shows "\<exists>n' s' caps' others.
           step SemverRegex (n, dotted a b c @ suf, caps) = (n', s', caps') # others
           \<and> caps' 1 = digits_of a \<and> caps' 2 = digits_of b \<and> caps' 3 = digits_of c"
proof -
  let ?caps = "caps(1 := digits_of a, 2 := digits_of b, 3 := digits_of c)"
  let ?st = "(n + length (dotted a b c), suf, ?caps)"
  have eq: "step SemverRegex (n, dotted a b c @ suf, caps) = step semver_tail ?st"
    by (rule step_SemverRegex_dotted [OF tail_accepts_first [OF assms]])
  from tail_accepts_anywhere [OF assms] obtain st others where
    t: "step semver_tail ?st = st # others"
    by (cases "step semver_tail ?st") auto
  obtain n' s' caps' where st: "st = (n', s', caps')" using prod_cases3 by blast
  have mem: "(n', s', caps') \<in> set (step semver_tail ?st)" unfolding t st by simp
  have "caps' i = ?caps i" if "i \<notin> set (subexps semver_tail)" for i
    using step_caps [OF that mem] by simp
  then have "caps' 1 = ?caps 1" "caps' 2 = ?caps 2" "caps' 3 = ?caps 3"
    by (simp_all add: subexps_semver_tail)
  then show ?thesis using eq t st by simp
qed

lemma FindStringSubmatch_version_text:
  assumes "\<forall>c \<in> set s. \<not> is_digit c" and "tail_accepts suf"
  shows "\<exists>whole g4 g5. FindStringSubmatch SemverRegex (s @ dotted a b c @ suf)
           = [whole, digits_of a, digits_of b, digits_of c, g4, g5]"
proof -
  from step_SemverRegex_version_text [OF assms(2), of "length s" a b c "\<lambda>_. []"]
  obtain n' s' caps' others where
    st: "step SemverRegex (length s, dotted a b c @ suf, \<lambda>_. []) = (n', s', caps') # others"
    and caps: "caps' 1 = digits_of a" "caps' 2 = digits_of b" "caps' 3 = digits_of c"
    by blast
  have "search SemverRegex 0 (s @ dotted a b c @ suf)
          = search SemverRegex (length s) (dotted a b c @ suf)"
    using search_skips_prefix [OF assms(1), of 0] by simp
  also have "\<dots> = Some (take (n' - length s) (dotted a b c @ suf) # map caps' (subexps SemverRegex))"
    by (rule search_found [OF st])
  finally show ?thesis
    using caps by (simp add: FindStringSubmatch_def subexps_SemverRegex)
qed

lemma MatchString_version_text:
  assumes "tail_accepts suf"
  shows "MatchString SemverRegex (s @ dotted a b c @ suf)"
proof -
  have "step SemverRegex (n, dotted a b c @ suf, \<lambda>_. []) \<noteq> []" for n
    using step_SemverRegex_version_text [OF assms, of n a b c "\<lambda>_. []"] by auto
  then have "search SemverRegex 0 (s @ dotted a b c @ suf) \<noteq> None"
    by (rule search_some_prefix)
  then show ?thesis by (simp add: MatchString_def)
qed

lemma NewSemverFromGitTag_of_submatch:
  assumes "FindStringSubmatch SemverRegex (Name tag)
             = [whole, digits_of (nat (sint (Major v))), digits_of (nat (sint (Minor v))),
                digits_of (nat (sint (Patch v))), g4, g5]"
    and "0 \<le>s Major v" and "0 \<le>s Minor v" and "0 \<le>s Patch v"
  shows "NewSemverFromGitTag f tag = Inr (v\<lparr>BuildMetadata := []\<rparr>)"
proof -
  have roundtrip: "Atoi (digits_of (nat (sint x))) = Inr x" if "0 \<le>s x" for x :: go_int
    unfolding Atoi_digits_of [OF nat_sint_bound] word_of_nat_sint [OF that] by (rule refl)
  show ?thesis
    using assms(2-4)
    by (simp add: NewSemverFromGitTag_def assms(1) roundtrip NewSemver_def)
qed

lemma NewSemverFromGitTag_metadata:
  "NewSemverFromGitTag f tag = Inr sv \<Longrightarrow> BuildMetadata sv = []"
  by (auto simp add: NewSemverFromGitTag_def NewSemver_def Let_def split: if_splits sum.splits)

lemma tail_accepts_Nil: "tail_accepts []"
  by (simp add: tail_accepts_def semver_tail_end)

text \<open>
  C6. For every version with non-negative major, minor and patch components and no build
  metadata, parsing a tag whose name is the formatted version gives the version back.
\<close>

theorem parse_format_round_trip:
  assumes "0 \<le>s Major v" and "0 \<le>s Minor v" and "0 \<le>s Patch v" and "BuildMetadata v = []"
  shows "NewSemverFromGitTag f \<lparr>Name = String v, Target = target, Tagger_When = when\<rparr> = Inr v"
proof -
  let ?tag = "\<lparr>Name = String v, Target = target, Tagger_When = when\<rparr>"
  have "String v = [] @ dotted (nat (sint (Major v))) (nat (sint (Minor v))) (nat (sint (Patch v))) @ []"
    using assms by (simp add: String_def NormalVersion_dotted)
  then obtain whole g4 g5 where
    "FindStringSubmatch SemverRegex (Name ?tag)
       = [whole, digits_of (nat (sint (Major v))), digits_of (nat (sint (Minor v))),
          digits_of (nat (sint (Patch v))), g4, g5]"
    using FindStringSubmatch_version_text [of "[]" "[]", OF _ tail_accepts_Nil] by fastforce
  from NewSemverFromGitTag_of_submatch [OF this assms(1-3)]
  show ?thesis using assms(4) by simp
qed

theorem parse_format_round_trip_witness:
  "0 \<le>s Major \<lparr>Major = 12, Minor = 0, Patch = 305, BuildMetadata = []\<rparr>
   \<and> String \<lparr>Major = 12, Minor = 0, Patch = 305, BuildMetadata = []\<rparr> = ''12.0.305''
   \<and> NewSemverFromGitTag (\<lambda>_. True) \<lparr>Name = ''12.0.305'', Target = ''aaaa'', Tagger_When = 7\<rparr>
       = Inr \<lparr>Major = 12, Minor = 0, Patch = 305, BuildMetadata = []\<rparr>"
proof -
  let ?v = "\<lparr>Major = 12, Minor = 0, Patch = 305, BuildMetadata = []\<rparr>"
  have h: "0 \<le>s Major ?v" "0 \<le>s Minor ?v" "0 \<le>s Patch ?v" "BuildMetadata ?v = []"
    by (simp_all add: word_sle_eq)
  have s: "String ?v = ''12.0.305''"
    by (simp add: String_def NormalVersion_def fmt_d_def digits_of.simps digit_char_def)
  show ?thesis
    using parse_format_round_trip [OF h, of "\<lambda>_. True" "''aaaa''" 7] h(1) s by simp
qed

section \<open>Tag names with a prefix and a suffix\<close>

text \<open>
  C10, as stated, fails for a prefix that ends in a digit or contains a version of its
  own: the leftmost match starts inside the prefix. The tag name "1" followed by "0.0.0"
  parses to 10.0.0, and "1.2.3-" followed by "4.5.6" parses to 1.2.3.
\<close>

theorem prefix_with_digits_changes_version:
  "NormalVersion \<lparr>Major = 0, Minor = 0, Patch = 0, BuildMetadata = []\<rparr> = ''0.0.0''
   \<and> NewSemverFromGitTag (\<lambda>_. True)
         \<lparr>Name = ''1'' @ ''0.0.0'', Target = ''aaaa'', Tagger_When = 0\<rparr>
       = Inr \<lparr>Major = 10, Minor = 0, Patch = 0, BuildMetadata = []\<rparr>
   \<and> NormalVersion \<lparr>Major = 4, Minor = 5, Patch = 6, BuildMetadata = []\<rparr> = ''4.5.6''
   \<and> NewSemverFromGitTag (\<lambda>_. True)
         \<lparr>Name = ''1.2.3-'' @ ''4.5.6'', Target = ''aaaa'', Tagger_When = 0\<rparr>
       = Inr \<lparr>Major = 1, Minor = 2, Patch = 3, BuildMetadata = []\<rparr>"
  by (simp add: NormalVersion_def fmt_d_def digits_of.simps digit_char_def parse_defs regex_defs)

text \<open>
  C10, amended. The pattern is anchored only at the end of the tag name: for every string
  \<open>s\<close>, every version \<open>v\<close> with non-negative components and every suffix that the end of
  the pattern accepts (none, a pre-release, build metadata or both), the tag name made of
  \<open>s\<close>, the text of \<open>v\<close> and the suffix passes the tag filter. When \<open>s\<close> contains no
  decimal digit the tag parses to the numeric triple of \<open>v\<close>, whatever else \<open>s\<close> is, and
  the suffix is discarded. Every version parsed from a tag has empty build metadata.
\<close>

theorem tag_name_with_prefix_and_suffix:
  assumes "0 \<le>s Major v" and "0 \<le>s Minor v" and "0 \<le>s Patch v" and "tail_accepts suf"
  shows "MatchString SemverRegex (s @ NormalVersion v @ suf)
    \<and> ((\<forall>c \<in> set s. \<not> is_digit c) \<longrightarrow>
          NewSemverFromGitTag f \<lparr>Name = s @ NormalVersion v @ suf, Target = target, Tagger_When = when\<rparr>
            = Inr (v\<lparr>BuildMetadata := []\<rparr>))
    \<and> (\<forall>sv. NewSemverFromGitTag f tag = Inr sv \<longrightarrow> BuildMetadata sv = [])"
proof (intro conjI impI allI)
  show "MatchString SemverRegex (s @ NormalVersion v @ suf)"
    unfolding NormalVersion_dotted [OF assms(1-3)] by (rule MatchString_version_text [OF assms(4)])
next
  assume nd: "\<forall>c \<in> set s. \<not> is_digit c"
  let ?tag = "\<lparr>Name = s @ NormalVersion v @ suf, Target = target, Tagger_When = when\<rparr>"
  from FindStringSubmatch_version_text [OF nd assms(4)] obtain whole g4 g5 where
    "FindStringSubmatch SemverRegex (Name ?tag)
       = [whole, digits_of (nat (sint (Major v))), digits_of (nat (sint (Minor v))),
          digits_of (nat (sint (Patch v))), g4, g5]"
    unfolding NormalVersion_dotted [OF assms(1-3)] by fastforce
  then show "NewSemverFromGitTag f ?tag = Inr (v\<lparr>BuildMetadata := []\<rparr>)"
    by (rule NewSemverFromGitTag_of_submatch [OF _ assms(1-3)])
next
  fix sv assume "NewSemverFromGitTag f tag = Inr sv"
  then show "BuildMetadata sv = []" by (rule NewSemverFromGitTag_metadata)
qed

theorem tag_name_with_prefix_and_suffix_witness:
  "0 \<le>s Major \<lparr>Major = 1, Minor = 20, Patch = 3, BuildMetadata = ''b7''\<rparr>
   \<and> tail_accepts ''-rc.1+build5''
   \<and> MatchString SemverRegex ''release-1.20.3-rc.1+build5''
   \<and> NewSemverFromGitTag (\<lambda>_. True)
         \<lparr>Name = ''release-1.20.3-rc.1+build5'', Target = ''aaaa'', Tagger_When = 0\<rparr>
       = Inr \<lparr>Major = 1, Minor = 20, Patch = 3, BuildMetadata = []\<rparr>"
proof -
  let ?v = "\<lparr>Major = 1, Minor = 20, Patch = 3, BuildMetadata = ''b7''\<rparr>"
  have h: "0 \<le>s Major ?v" "0 \<le>s Minor ?v" "0 \<le>s Patch ?v"
    by (simp_all add: word_sle_eq)
  have t: "tail_accepts ''-rc.1+build5''"
    by (simp add: tail_accepts_def regex_defs)
  have nd: "\<forall>c \<in> set ''release-''. \<not> is_digit c"
    by (simp add: is_digit_def)
  have nv: "''release-'' @ NormalVersion ?v @ ''-rc.1+build5'' = ''release-1.20.3-rc.1+build5''"
    by (simp add: NormalVersion_def fmt_d_def digits_of.simps digit_char_def)
  show ?thesis
    using tag_name_with_prefix_and_suffix [OF h t, of "''release-''" "\<lambda>_. True" "''aaaa''" 0]
      h(1) t nd
    unfolding nv by simp
qed

section \<open>The whole match of the conventional-commit pattern is the message\<close>

lemma advanced_refl: "advanced a a"
  unfolding advanced_def by (rule exI [of _ 0]) simp

lemma advanced_trans: "advanced a b \<Longrightarrow> advanced b c \<Longrightarrow> advanced a c"
proof -
  assume "advanced a b" and "advanced b c"
  then obtain k l where k: "k \<le> length (fst (snd a))" "fst b = fst a + k"
      "fst (snd b) = drop k (fst (snd a))"
    and l: "l \<le> length (fst (snd b))" "fst c = fst b + l" "fst (snd c) = drop l (fst (snd b))"
    unfolding advanced_def by blast
  have "k + l \<le> length (fst (snd a))" using k l by simp
  moreover have "fst c = fst a + (k + l)" using k l by simp
  moreover have "fst (snd c) = drop (k + l) (fst (snd a))" using k l by (simp add: add.commute)
  ultimately show "advanced a c" unfolding advanced_def by blast
qed

lemma star_iter_advanced:
  assumes "\<And>a b. b \<in> set (f a) \<Longrightarrow> advanced a b"
  shows "b \<in> set (star_iter f k a) \<Longrightarrow> advanced a b"
proof (induction k arbitrary: a b)
  case 0
  then show ?case by (simp add: advanced_refl)
next
  case (Suc k)
  from Suc.prems consider "b = a"
    | mid where "mid \<in> set (f a)" and "b \<in> set (star_iter f k mid)" by auto
  then show ?case
  proof cases
    case 1
    then show ?thesis by (simp add: advanced_refl)
  next
    case 2
    then show ?thesis using Suc.IH [of b mid] assms [of mid a] advanced_trans by blast
  qed
qed

lemma step_advanced: "b \<in> set (step r a) \<Longrightarrow> advanced a b"
proof (induction r arbitrary: a b)
  case (Lit w)
  obtain n s caps where a: "a = (n, s, caps)" using prod_cases3 by blast
  from Lit have t: "take (length w) s = w" and b: "b = (n + length w, drop (length w) s, caps)"
    by (auto simp add: a split: if_splits)
  from t have "length (take (length w) s) = length w" by simp
  then have "length w \<le> length s" by simp
  then show ?case unfolding advanced_def using b a by auto
next
  case (Class rs)
  obtain n s caps where a: "a = (n, s, caps)" using prod_cases3 by blast
  from Class obtain c cs where "s = c # cs" and "b = (Suc n, cs, caps)"
    by (auto simp add: a split: list.splits if_splits)
  then show ?case unfolding advanced_def a by (intro exI [of _ 1]) simp
next
  case AnyChar
  obtain n s caps where a: "a = (n, s, caps)" using prod_cases3 by blast
  from AnyChar obtain c cs where "s = c # cs" and "b = (Suc n, cs, caps)"
    by (auto simp add: a split: list.splits)
  then show ?case unfolding advanced_def a by (intro exI [of _ 1]) simp
next
  case (Cat r1 r2)
  from Cat.prems obtain mid where "mid \<in> set (step r1 a)" and "b \<in> set (step r2 mid)" by auto
  then show ?case using Cat.IH advanced_trans by blast
next
  case (Alt r1 r2)
  from Alt.prems have "b \<in> set (step r1 a) \<or> b \<in> set (step r2 a)" by simp
  then show ?case using Alt.IH by blast
next
  case (Star r)
  obtain n s caps where a: "a = (n, s, caps)" using prod_cases3 by blast
  from Star.prems have "b \<in> set (star_iter (\<lambda>st'. step r st') (length s) a)" by (simp add: a)
  then show ?case using star_iter_advanced [of "\<lambda>st'. step r st'"] Star.IH by blast
next
  case (Plus r)
  obtain n s caps where a: "a = (n, s, caps)" using prod_cases3 by blast
  from Plus.prems obtain mid where m: "mid \<in> set (step r a)"
    and b: "b \<in> set (star_iter (\<lambda>st'. step r st') (length s) mid)" by (auto simp add: a)
  have "advanced mid b" using star_iter_advanced [of "\<lambda>st'. step r st'"] Plus.IH b by blast
  then show ?case using Plus.IH [OF m] advanced_trans by blast
next
  case (Quest r)
  from Quest.prems have "b \<in> set (step r a) \<or> b = a" by auto
  then show ?case using Quest.IH advanced_refl by blast
next
  case (Cap j r)
  obtain n s caps where a: "a = (n, s, caps)" using prod_cases3 by blast
  from Cap.prems obtain n' s' caps' where m: "(n', s', caps') \<in> set (step r a)"
    and b: "b = (n', s', caps'(j := take (n' - n) s))" by (auto simp add: a)
  from Cap.IH [OF m] show ?case by (simp add: advanced_def b)
next
  case BeginText
  then show ?case by (cases a) (auto simp add: advanced_refl split: if_splits)
next
  case EndText
  then show ?case by (cases a) (auto simp add: advanced_refl split: if_splits)
qed

text \<open>
  The bound on the rounds of a repetition never cuts it short: with the length of the text
  still to read as the bound, one more round allowed changes nothing.
\<close>

lemma star_iter_enough:
  assumes "\<And>a b. b \<in> set (f a) \<Longrightarrow> advanced a b"
  shows "length (fst (snd st)) \<le> k \<Longrightarrow> star_iter f (Suc k) st = star_iter f k st"
proof (induction k arbitrary: st)
  case 0
  have "filter (\<lambda>st'. fst st < fst st') (f st) = []"
  proof -
    have "\<not> fst st < fst b" if "b \<in> set (f st)" for b
      using assms [OF that] 0 by (auto simp add: advanced_def)
    then show ?thesis by (auto simp add: filter_empty_conv)
  qed
  then show ?case by simp
next
  case (Suc k)
  have "star_iter f (Suc k) b = star_iter f k b"
    if "b \<in> set (filter (\<lambda>st'. fst st < fst st') (f st))" for b
  proof (rule Suc.IH)
    from that have m: "b \<in> set (f st)" and p: "fst st < fst b" by simp_all
    from assms [OF m] obtain j where j: "j \<le> length (fst (snd st))" "fst b = fst st + j"
      "fst (snd b) = drop j (fst (snd st))" unfolding advanced_def by blast
    with p have "0 < j" by simp
    with j Suc.prems show "length (fst (snd b)) \<le> k" by simp
  qed
  then have e: "map (star_iter f (Suc k)) (filter (\<lambda>st'. fst st < fst st') (f st))
             = map (star_iter f k) (filter (\<lambda>st'. fst st < fst st') (f st))"
    by (rule map_cong [OF refl])
  have "star_iter f (Suc (Suc k)) st
          = concat (map (star_iter f (Suc k)) (filter (\<lambda>st'. fst st < fst st') (f st))) @ [st]"
    by (rule star_iter.simps(2))
  also have "\<dots> = concat (map (star_iter f k) (filter (\<lambda>st'. fst st < fst st') (f st))) @ [st]"
    by (simp only: e)
  also have "\<dots> = star_iter f (Suc k) st"
    by (rule star_iter.simps(2) [symmetric])
  finally show ?case .
qed

lemma step_Star_fuel:
  "step (Star r) (n, s, caps) = star_iter (\<lambda>st'. step r st') (length s + j) (n, s, caps)"
proof (induction j)
  case 0
  show ?case by simp
next
  case (Suc j)
  have "star_iter (\<lambda>st'. step r st') (Suc (length s + j)) (n, s, caps)
          = star_iter (\<lambda>st'. step r st') (length s + j) (n, s, caps)"
    by (rule star_iter_enough) (simp_all add: step_advanced)
  with Suc show ?case by simp
qed

lemma star_AnyChar_first:
  "length s \<le> k \<Longrightarrow>
     \<exists>others. star_iter (\<lambda>st'. step AnyChar st') k (n, s, caps) = (n + length s, [], caps) # others"
proof (induction s arbitrary: n k)
  case Nil
  then show ?case by (cases k) simp_all
next
  case (Cons c s)
  then obtain k' where k: "k = Suc k'" and k': "length s \<le> k'" by (cases k) auto
  from Cons.IH [OF k', of "Suc n"] obtain others where
    "star_iter (\<lambda>st'. step AnyChar st') k' (Suc n, s, caps) = (Suc n + length s, [], caps) # others"
    by blast
  then show ?case by (simp add: k)
qed

lemma reads_all_Star_AnyChar: "reads_all (Star AnyChar)"
  unfolding reads_all_def
proof (intro allI impI)
  fix st x xs assume s: "step (Star AnyChar) st = x # xs"
  obtain n t caps where st: "st = (n, t, caps)" using prod_cases3 by blast
  from star_AnyChar_first [of t "length t" n caps] s show "fst (snd x) = []"
    by (auto simp add: st)
qed

lemma reads_all_Cap: "reads_all r \<Longrightarrow> reads_all (Cap i r)"
  unfolding reads_all_def
proof (intro allI impI)
  fix st x xs assume r: "\<forall>st x xs. step r st = x # xs \<longrightarrow> fst (snd x) = []"
    and s: "step (Cap i r) st = x # xs"
  obtain n t caps where st: "st = (n, t, caps)" using prod_cases3 by blast
  from s obtain y ys where y: "step r st = y # ys" by (cases "step r st") (auto simp add: st)
  with r have "fst (snd y) = []" by blast
  with s y show "fst (snd x) = []" by (cases y) (auto simp add: st)
qed

lemma hd_concat:
  "concat xss = x # xs \<Longrightarrow> \<exists>ys \<in> set xss. \<exists>zs. ys = x # zs"
proof (induction xss)
  case Nil
  then show ?case by simp
next
  case (Cons ys xss)
  then show ?case by (cases ys) auto
qed

lemma reads_all_Cat: "reads_all r2 \<Longrightarrow> reads_all (Cat r1 r2)"
  unfolding reads_all_def
proof (intro allI impI)
  fix st x xs assume r: "\<forall>st x xs. step r2 st = x # xs \<longrightarrow> fst (snd x) = []"
    and s: "step (Cat r1 r2) st = x # xs"
  from s have "concat (map (step r2) (step r1 st)) = x # xs" by simp
  from hd_concat [OF this] obtain mid zs where "step r2 mid = x # zs" by auto
  with r show "fst (snd x) = []" by blast
qed

lemma reads_all_conventionalCommitRegex: "reads_all conventionalCommitRegex"
  unfolding conventionalCommitRegex_def
  by (intro reads_all_Cat reads_all_Cap reads_all_Star_AnyChar)

lemma step_conventional_later: "step conventionalCommitRegex (Suc n, s, caps) = []"
  by (simp add: conventionalCommitRegex_def)

lemma search_conventional_later: "search conventionalCommitRegex (Suc n) s = None"
proof (induction s arbitrary: n)
  case Nil
  show ?case by (subst search.simps) (simp add: step_conventional_later)
next
  case (Cons c s)
  show ?case by (subst search.simps) (simp add: step_conventional_later Cons.IH)
qed

lemma whole_match_is_message:
  assumes "MatchString conventionalCommitRegex message"
  shows "FindStringSubmatch conventionalCommitRegex message ! 0 = message"
proof -
  let ?r = conventionalCommitRegex
  show ?thesis
  proof (cases "step ?r (0, message, \<lambda>_. [])")
    case Nil
    then have "search ?r 0 message = None"
      by (subst search.simps) (simp add: search_conventional_later split: list.splits)
    with assms show ?thesis by (simp add: MatchString_def)
  next
    case (Cons x xs)
    obtain n' s' caps' where x: "x = (n', s', caps')" using prod_cases3 by blast
    from reads_all_conventionalCommitRegex Cons have e: "s' = []"
      unfolding reads_all_def x by fastforce
    have "advanced (0, message, \<lambda>_. []) x"
      using step_advanced [of x ?r "(0, message, \<lambda>_. [])"] Cons by simp
    then obtain k where k: "k \<le> length message" "n' = k" "s' = drop k message"
      unfolding advanced_def x by auto
    with e have "n' = length message" by simp
    moreover have "search ?r 0 message = Some (take (n' - 0) message # map caps' (subexps ?r))"
      using Cons unfolding x by (rule search_found)
    ultimately show ?thesis by (simp add: FindStringSubmatch_def)
  qed
qed

lemma breaking_iff:
  "breaking c \<longleftrightarrow>
     MatchString conventionalCommitRegex (Message c)
     \<and> (Contains (FindStringSubmatch conventionalCommitRegex (Message c) ! 3) ''!''
        \<or> Contains (Message c) ''BREAKING CHANGE'')"
  using whole_match_is_message [of "Message c"]
  by (auto simp add: breaking_def breakingChange_of_def Let_def)

section \<open>The bump loop\<close>

lemma match_nonempty: "MatchString conventionalCommitRegex m \<Longrightarrow> m \<noteq> []"
  by (rule notI) (simp add: regex_defs)

lemma shortMessage_match:
  "MatchString conventionalCommitRegex m \<Longrightarrow>
     shortMessage m = Some (if 60 < length m then take 57 m @ ''...'' else butlast m)"
  by (frule match_nonempty) (simp add: shortMessage_def butlast_conv_take)

lemma bump_loop_step:
  assumes "MatchString conventionalCommitRegex (Message c)"
  shows "bump_loop rules (c # history) (v, nr, lg) =
     (if breakingChange_of (Message c)
      then Inr (BumpMajor v, True, lg @ [''('' @ take 7 (Hash c) @ '') breaking change''])
      else bump_loop rules history
             (apply_rules rules (commitType_of (Message c)) (take 7 (Hash c))
                (the (shortMessage (Message c))) (v, nr, lg)))"
  using assms shortMessage_match [OF assms]
  by (simp add: breakingChange_of_def commitType_of_def Let_def)

lemma bump_loop_skip:
  "\<not> MatchString conventionalCommitRegex (Message c) \<Longrightarrow>
     bump_loop rules (c # history) (v, nr, lg) = bump_loop rules history (v, nr, lg)"
  by simp

lemma bump_loop_Nil: "bump_loop rules [] st = Inr st"
  by simp

declare bump_loop.simps [simp del]

lemma bump_loop_total: "\<exists>st'. bump_loop rules history st = Inr st'"
proof (induction history arbitrary: st)
  case Nil
  show ?case unfolding bump_loop_Nil by blast
next
  case (Cons c history)
  obtain v nr lg where st: "st = (v, nr, lg)" using prod_cases3 by blast
  show ?case
  proof (cases "MatchString conventionalCommitRegex (Message c)")
    case True
    then show ?thesis unfolding st using Cons.IH by (auto simp add: bump_loop_step)
  next
    case False
    then show ?thesis unfolding st using Cons.IH by (simp add: bump_loop_skip)
  qed
qed

lemma bump_loop_append:
  assumes "\<forall>c \<in> set pre. \<not> breaking c"
  shows "bump_loop rules (pre @ rest) st =
           (case bump_loop rules pre st of Inl e \<Rightarrow> Inl e | Inr st' \<Rightarrow> bump_loop rules rest st')"
  using assms
proof (induction pre arbitrary: st)
  case Nil
  then show ?case by (simp add: bump_loop_Nil)
next
  case (Cons c pre)
  obtain v nr lg where st: "st = (v, nr, lg)" using prod_cases3 by blast
  from Cons.prems have nb: "\<not> breaking c" and rest: "\<forall>c \<in> set pre. \<not> breaking c" by auto
  show ?case
  proof (cases "MatchString conventionalCommitRegex (Message c)")
    case True
    with nb have "\<not> breakingChange_of (Message c)" by (simp add: breaking_def)
    with True show ?thesis unfolding st append_Cons
      by (simp add: bump_loop_step Cons.IH [OF rest])
  next
    case False
    then show ?thesis unfolding st append_Cons
      by (simp add: bump_loop_skip Cons.IH [OF rest])
  qed
qed

lemma bump_loop_continue_Nil: "bump_loop_continue rules [] st = Inr st"
  by simp

lemma bump_loop_continue_step:
  assumes "MatchString conventionalCommitRegex (Message c)"
  shows "bump_loop_continue rules (c # history) (v, nr, lg) =
     (if breakingChange_of (Message c)
      then bump_loop_continue rules history
             (BumpMajor v, True, lg @ [''('' @ take 7 (Hash c) @ '') breaking change''])
      else bump_loop_continue rules history
             (apply_rules rules (commitType_of (Message c)) (take 7 (Hash c))
                (the (shortMessage (Message c))) (v, nr, lg)))"
  using assms shortMessage_match [OF assms]
  by (simp add: breakingChange_of_def commitType_of_def Let_def)

lemma bump_loop_continue_skip:
  "\<not> MatchString conventionalCommitRegex (Message c) \<Longrightarrow>
     bump_loop_continue rules (c # history) (v, nr, lg) = bump_loop_continue rules history (v, nr, lg)"
  by simp

declare bump_loop_continue.simps [simp del]

lemma bump_loop_continue_no_breaking:
  "\<forall>c \<in> set history. \<not> breaking c \<Longrightarrow>
     bump_loop_continue rules history st = bump_loop rules history st"
proof (induction history arbitrary: st)
  case Nil
  show ?case by (simp add: bump_loop_Nil bump_loop_continue_Nil)
next
  case (Cons c history)
  obtain v nr lg where st: "st = (v, nr, lg)" using prod_cases3 by blast
  from Cons.prems have nb: "\<not> breaking c" and rest: "\<forall>c \<in> set history. \<not> breaking c" by auto
  show ?case
  proof (cases "MatchString conventionalCommitRegex (Message c)")
    case True
    with nb have "\<not> breakingChange_of (Message c)" by (simp add: breaking_def)
    with True show ?thesis unfolding st
      by (simp add: bump_loop_step bump_loop_continue_step Cons.IH [OF rest])
  next
    case False
    then show ?thesis unfolding st
      by (simp add: bump_loop_skip bump_loop_continue_skip Cons.IH [OF rest])
  qed
qed

lemma bump_loop_continue_append:
  "bump_loop_continue rules (pre @ rest) st =
     (case bump_loop_continue rules pre st of Inl e \<Rightarrow> Inl e
      | Inr st' \<Rightarrow> bump_loop_continue rules rest st')"
proof (induction pre arbitrary: st)
  case Nil
  show ?case by (simp add: bump_loop_continue_Nil)
next
  case (Cons c pre)
  obtain v nr lg where st: "st = (v, nr, lg)" using prod_cases3 by blast
  show ?case
  proof (cases "MatchString conventionalCommitRegex (Message c)")
    case True
    then show ?thesis unfolding st
      by (simp add: bump_loop_continue_step Cons.IH)
  next
    case False
    then show ?thesis unfolding st
      by (simp add: bump_loop_continue_skip Cons.IH)
  qed
qed

lemma ComputeNewSemverNumber_one_tag:
  assumes "TagObjects r = Inr [tag]" and "MatchString SemverRegex (Name tag)"
    and "NewSemverFromGitTag f tag = Inr v"
    and "Log r (if \<not> IsZero v then Some (Tagger_When tag) else None) = Inr commitHistory"
  shows "ComputeNewSemverNumber f NewTag c r =
           (case bump_loop (range_of (Rules (releaseRules c))) (rev commitHistory) (v, False, []) of
              Inl err \<Rightarrow> ([], Inl err)
            | Inr (v', newRelease, logged) \<Rightarrow> (logged, Inr (v', newRelease)))"
proof -
  have "fetchLatestSemverTag f NewTag r = ([], Inr tag)"
    using assms(1,2) by (simp add: fetchLatestSemverTag_def)
  then show ?thesis
    using assms(3,4) by (simp add: ComputeNewSemverNumber_def Let_def split: sum.splits)
qed

lemma bump_loop_at_breaking:
  assumes "\<forall>c \<in> set pre. \<not> breaking c" and "breaking c"
  shows "\<exists>v nr lg. bump_loop rules pre st = Inr (v, nr, lg) \<and>
           bump_loop rules (pre @ c # post) st =
             Inr (BumpMajor v, True, lg @ [''('' @ take 7 (Hash c) @ '') breaking change''])"
proof -
  obtain v nr lg where pre: "bump_loop rules pre st = Inr (v, nr, lg)"
    using bump_loop_total [of rules pre st] by auto
  from assms(2) have m: "MatchString conventionalCommitRegex (Message c)"
    and b: "breakingChange_of (Message c)" by (simp_all add: breaking_def)
  have "bump_loop rules (pre @ c # post) st = bump_loop rules (c # post) (v, nr, lg)"
    by (simp add: bump_loop_append [OF assms(1)] pre)
  also have "\<dots> = Inr (BumpMajor v, True, lg @ [''('' @ take 7 (Hash c) @ '') breaking change''])"
    using b by (simp add: bump_loop_step [OF m])
  finally show ?thesis using pre by blast
qed

text \<open>
  C1. When the loop reaches a commit classified as breaking (no commit before it is), it bumps
  the major component of the version reached so far, sets the flag and logs the breaking
  change, and that is the result: the commits after it add nothing, neither a bump nor a
  log line. A commit is classified as breaking exactly when its message matches the grammar
  and either the group of the "!" marker holds it or the message contains "BREAKING CHANGE".
  The same example through \<open>ComputeNewSemverNumber\<close>, on a repository whose only tag is
  v1.0.0 and whose log, newest first, is "fix: c", "feat!: breaking change". From 1.0.0 with the rules feat\<rightarrow>minor, fix\<rightarrow>patch, the history
  "feat!: breaking change", "fix: c" gives (2.0.0, true) and the only line logged is the
  breaking change.
\<close>

theorem breaking_commit_ends_loop:
  assumes "\<forall>c \<in> set pre. \<not> breaking c" and "breaking c"
  shows "(\<exists>v nr lg. bump_loop rules pre st = Inr (v, nr, lg) \<and>
            bump_loop rules (pre @ c # post) st =
              Inr (BumpMajor v, True, lg @ [''('' @ take 7 (Hash c) @ '') breaking change'']))
       \<and> (breaking d \<longleftrightarrow>
            MatchString conventionalCommitRegex (Message d)
            \<and> (Contains (FindStringSubmatch conventionalCommitRegex (Message d) ! 3) ''!''
               \<or> Contains (Message d) ''BREAKING CHANGE''))
       \<and> bump_loop [\<lparr>CommitType = ''feat'', ReleaseType = ''minor''\<rparr>,
                     \<lparr>CommitType = ''fix'', ReleaseType = ''patch''\<rparr>]
            [\<lparr>Hash = h1, Message = ''feat!: breaking change''\<rparr>, \<lparr>Hash = h2, Message = ''fix: c''\<rparr>]
            (\<lparr>Major = 1, Minor = 0, Patch = 0, BuildMetadata = []\<rparr>, False, [])
          = Inr (\<lparr>Major = 2, Minor = 0, Patch = 0, BuildMetadata = []\<rparr>, True,
                 [''('' @ take 7 h1 @ '') breaking change''])
       \<and> ComputeNewSemverNumber f NewTag
            \<lparr>releaseRules = \<lparr>Rules = Some [\<lparr>CommitType = ''feat'', ReleaseType = ''minor''\<rparr>,
                                               \<lparr>CommitType = ''fix'', ReleaseType = ''patch''\<rparr>]\<rparr>\<rparr>
            \<lparr>TagObjects = Inr [\<lparr>Name = ''v1.0.0'', Target = target, Tagger_When = when\<rparr>],
             Head = head,
             Log = (\<lambda>since. Inr [\<lparr>Hash = h2, Message = ''fix: c''\<rparr>,
                                 \<lparr>Hash = h1, Message = ''feat!: breaking change''\<rparr>])\<rparr>
          = ([''('' @ take 7 h1 @ '') breaking change''],
             Inr (\<lparr>Major = 2, Minor = 0, Patch = 0, BuildMetadata = []\<rparr>, True))"
proof (intro conjI)
  show "\<exists>v nr lg. bump_loop rules pre st = Inr (v, nr, lg) \<and>
            bump_loop rules (pre @ c # post) st =
              Inr (BumpMajor v, True, lg @ [''('' @ take 7 (Hash c) @ '') breaking change''])"
    by (rule bump_loop_at_breaking [OF assms])
next
  show "breaking d \<longleftrightarrow>
            MatchString conventionalCommitRegex (Message d)
            \<and> (Contains (FindStringSubmatch conventionalCommitRegex (Message d) ! 3) ''!''
               \<or> Contains (Message d) ''BREAKING CHANGE'')"
    by (rule breaking_iff)
next
  show ex: "bump_loop [\<lparr>CommitType = ''feat'', ReleaseType = ''minor''\<rparr>,
                     \<lparr>CommitType = ''fix'', ReleaseType = ''patch''\<rparr>]
            [\<lparr>Hash = h1, Message = ''feat!: breaking change''\<rparr>, \<lparr>Hash = h2, Message = ''fix: c''\<rparr>]
            (\<lparr>Major = 1, Minor = 0, Patch = 0, BuildMetadata = []\<rparr>, False, [])
          = Inr (\<lparr>Major = 2, Minor = 0, Patch = 0, BuildMetadata = []\<rparr>, True,
                 [''('' @ take 7 h1 @ '') breaking change''])"
    by (simp add: bump_loop.simps eval_defs)
  let ?tag = "\<lparr>Name = ''v1.0.0'', Target = target, Tagger_When = when\<rparr>"
  have m: "MatchString SemverRegex (Name ?tag)" by (simp add: regex_defs)
  have p: "NewSemverFromGitTag f ?tag = Inr \<lparr>Major = 1, Minor = 0, Patch = 0, BuildMetadata = []\<rparr>"
    by (simp add: parse_defs regex_defs)
  let ?r = "\<lparr>TagObjects = Inr [?tag], Head = head,
             Log = (\<lambda>since. Inr [\<lparr>Hash = h2, Message = ''fix: c''\<rparr>,
                                 \<lparr>Hash = h1, Message = ''feat!: breaking change''\<rparr>])\<rparr>"
  have t: "TagObjects ?r = Inr [?tag]" by simp
  have l: "Log ?r (if \<not> IsZero \<lparr>Major = 1, Minor = 0, Patch = 0, BuildMetadata = []\<rparr>
                   then Some (Tagger_When ?tag) else None)
             = Inr [\<lparr>Hash = h2, Message = ''fix: c''\<rparr>,
                    \<lparr>Hash = h1, Message = ''feat!: breaking change''\<rparr>]" by simp
  show "ComputeNewSemverNumber f NewTag
            \<lparr>releaseRules = \<lparr>Rules = Some [\<lparr>CommitType = ''feat'', ReleaseType = ''minor''\<rparr>,
                                               \<lparr>CommitType = ''fix'', ReleaseType = ''patch''\<rparr>]\<rparr>\<rparr> ?r
          = ([''('' @ take 7 h1 @ '') breaking change''],
             Inr (\<lparr>Major = 2, Minor = 0, Patch = 0, BuildMetadata = []\<rparr>, True))"
    unfolding ComputeNewSemverNumber_one_tag [OF t m p l] by (simp add: range_of_def ex)
qed

theorem breaking_commit_ends_loop_witness:
  "\<not> breaking \<lparr>Hash = ''1111111111'', Message = ''fix: a''\<rparr>
   \<and> breaking \<lparr>Hash = ''2222222222'', Message = ''docs: BREAKING CHANGE ahead''\<rparr>
   \<and> bump_loop [\<lparr>CommitType = ''fix'', ReleaseType = ''patch''\<rparr>]
        ([\<lparr>Hash = ''1111111111'', Message = ''fix: a''\<rparr>]
          @ \<lparr>Hash = ''2222222222'', Message = ''docs: BREAKING CHANGE ahead''\<rparr>
          # [\<lparr>Hash = ''3333333333'', Message = ''fix: c''\<rparr>])
        (\<lparr>Major = 1, Minor = 0, Patch = 0, BuildMetadata = []\<rparr>, False, [])
      = Inr (\<lparr>Major = 2, Minor = 0, Patch = 0, BuildMetadata = []\<rparr>, True,
             [''(1111111) patch: '' @ [CHR 0x22] @ ''fix: '' @ [CHR 0x22], ''version is now 1.0.1'',
              ''(2222222) breaking change''])"
proof -
  have h1: "\<forall>c \<in> set [\<lparr>Hash = ''1111111111'', Message = ''fix: a''\<rparr>]. \<not> breaking c"
    by (simp add: eval_defs)
  have h2: "breaking \<lparr>Hash = ''2222222222'', Message = ''docs: BREAKING CHANGE ahead''\<rparr>"
    by (simp add: eval_defs)
  have pre: "bump_loop [\<lparr>CommitType = ''fix'', ReleaseType = ''patch''\<rparr>]
        [\<lparr>Hash = ''1111111111'', Message = ''fix: a''\<rparr>]
        (\<lparr>Major = 1, Minor = 0, Patch = 0, BuildMetadata = []\<rparr>, False, [])
      = Inr (\<lparr>Major = 1, Minor = 0, Patch = 1, BuildMetadata = []\<rparr>, True,
             [''(1111111) patch: '' @ [CHR 0x22] @ ''fix: '' @ [CHR 0x22], ''version is now 1.0.1''])"
    by (simp add: bump_loop.simps eval_defs digits_of.simps)
  show ?thesis
    using breaking_commit_ends_loop [OF h1 h2, of "[\<lparr>CommitType = ''fix'', ReleaseType = ''patch''\<rparr>]"
        "(\<lparr>Major = 1, Minor = 0, Patch = 0, BuildMetadata = []\<rparr>, False, [])"
        "[\<lparr>Hash = ''3333333333'', Message = ''fix: c''\<rparr>]"] h1 h2
    by (simp add: pre BumpMajor_def)
qed

section \<open>Rules applied to one commit\<close>

lemma apply_rules_version:
  "fst (apply_rules rules ct sh sm (v, nr, lg)) =
     foldl (\<lambda>v rule. bump_for (ReleaseType rule) v) v (filter (\<lambda>rule. CommitType rule = ct) rules)"
  by (induction rules arbitrary: v nr lg) (auto simp add: bump_for_def Let_def)

lemma apply_rules_flag:
  "fst (snd (apply_rules rules ct sh sm (v, nr, lg))) \<longleftrightarrow>
     nr \<or> (\<exists>rule \<in> set rules. CommitType rule = ct \<and>
              (ReleaseType rule = ''patch'' \<or> ReleaseType rule = ''minor'' \<or> ReleaseType rule = ''major''))"
  by (induction rules arbitrary: v nr lg) (auto simp add: Let_def)

text \<open>
  C2. A commit that matches the grammar and is not breaking is passed to the rule loop with
  its type, and the loop goes on with the next commit from the state the rules leave. The
  version the rules leave is the bumps of the rules whose commit type equals the commit's
  type, applied from left to right in rule-list order (patch\<rightarrow>BumpPatch, minor\<rightarrow>BumpMinor,
  major\<rightarrow>BumpMajor), so one commit can be bumped several times; the flag is set when such
  a rule exists. From 1.0.0 with the rules feat\<rightarrow>minor, feat\<rightarrow>patch, the single commit
  "feat: x" gives (1.1.1, true), in the loop and through \<open>ComputeNewSemverNumber\<close> on a
  repository whose only tag is v1.0.0.
\<close>

theorem matching_rules_all_applied:
  "(MatchString conventionalCommitRegex (Message c) \<and> \<not> breakingChange_of (Message c) \<longrightarrow>
      (\<exists>shortMsg. shortMessage (Message c) = Some shortMsg \<and>
         bump_loop rules (c # history) (v, nr, lg) =
           bump_loop rules history
             (apply_rules rules (commitType_of (Message c)) (take 7 (Hash c)) shortMsg (v, nr, lg))))
   \<and> fst (apply_rules rules ct sh sm (v, nr, lg)) =
       foldl (\<lambda>v rule. bump_for (ReleaseType rule) v) v
         (filter (\<lambda>rule. CommitType rule = ct) rules)
   \<and> (fst (snd (apply_rules rules ct sh sm (v, nr, lg))) \<longleftrightarrow>
        nr \<or> (\<exists>rule \<in> set rules. CommitType rule = ct \<and>
                (ReleaseType rule = ''patch'' \<or> ReleaseType rule = ''minor''
                 \<or> ReleaseType rule = ''major'')))
   \<and> bump_loop [\<lparr>CommitType = ''feat'', ReleaseType = ''minor''\<rparr>,
                 \<lparr>CommitType = ''feat'', ReleaseType = ''patch''\<rparr>]
        [\<lparr>Hash = h, Message = ''feat: x''\<rparr>]
        (\<lparr>Major = 1, Minor = 0, Patch = 0, BuildMetadata = []\<rparr>, False, [])
      = Inr (\<lparr>Major = 1, Minor = 1, Patch = 1, BuildMetadata = []\<rparr>, True,
             [''('' @ take 7 h @ '') minor: '' @ [CHR 0x22] @ ''feat: '' @ [CHR 0x22],
              ''version is now 1.1.0'',
              ''('' @ take 7 h @ '') patch: '' @ [CHR 0x22] @ ''feat: '' @ [CHR 0x22],
              ''version is now 1.1.1''])
   \<and> snd (ComputeNewSemverNumber f NewTag
            \<lparr>releaseRules = \<lparr>Rules = Some [\<lparr>CommitType = ''feat'', ReleaseType = ''minor''\<rparr>,
                                               \<lparr>CommitType = ''feat'', ReleaseType = ''patch''\<rparr>]\<rparr>\<rparr>
            \<lparr>TagObjects = Inr [\<lparr>Name = ''v1.0.0'', Target = target, Tagger_When = when\<rparr>],
             Head = head, Log = (\<lambda>since. Inr [\<lparr>Hash = h, Message = ''feat: x''\<rparr>])\<rparr>)
       = Inr (\<lparr>Major = 1, Minor = 1, Patch = 1, BuildMetadata = []\<rparr>, True)"
proof (intro conjI impI)
  assume a: "MatchString conventionalCommitRegex (Message c) \<and> \<not> breakingChange_of (Message c)"
  then have m: "MatchString conventionalCommitRegex (Message c)" by simp
  from shortMessage_match [OF m] obtain shortMsg where
    sm: "shortMessage (Message c) = Some shortMsg" by blast
  with a show "\<exists>shortMsg. shortMessage (Message c) = Some shortMsg \<and>
         bump_loop rules (c # history) (v, nr, lg) =
           bump_loop rules history
             (apply_rules rules (commitType_of (Message c)) (take 7 (Hash c)) shortMsg (v, nr, lg))"
    by (simp add: bump_loop_step [OF m])
next
  show "fst (apply_rules rules ct sh sm (v, nr, lg)) =
       foldl (\<lambda>v rule. bump_for (ReleaseType rule) v) v
         (filter (\<lambda>rule. CommitType rule = ct) rules)"
    by (rule apply_rules_version)
next
  show "fst (snd (apply_rules rules ct sh sm (v, nr, lg))) \<longleftrightarrow>
        nr \<or> (\<exists>rule \<in> set rules. CommitType rule = ct \<and>
                (ReleaseType rule = ''patch'' \<or> ReleaseType rule = ''minor''
                 \<or> ReleaseType rule = ''major''))"
    by (rule apply_rules_flag)
next
  show ex: "bump_loop [\<lparr>CommitType = ''feat'', ReleaseType = ''minor''\<rparr>,
                 \<lparr>CommitType = ''feat'', ReleaseType = ''patch''\<rparr>]
        [\<lparr>Hash = h, Message = ''feat: x''\<rparr>]
        (\<lparr>Major = 1, Minor = 0, Patch = 0, BuildMetadata = []\<rparr>, False, [])
      = Inr (\<lparr>Major = 1, Minor = 1, Patch = 1, BuildMetadata = []\<rparr>, True,
             [''('' @ take 7 h @ '') minor: '' @ [CHR 0x22] @ ''feat: '' @ [CHR 0x22],
              ''version is now 1.1.0'',
              ''('' @ take 7 h @ '') patch: '' @ [CHR 0x22] @ ''feat: '' @ [CHR 0x22],
              ''version is now 1.1.1''])"
    by (simp add: bump_loop.simps eval_defs digits_of.simps Let_def)
  let ?tag = "\<lparr>Name = ''v1.0.0'', Target = target, Tagger_When = when\<rparr>"
  have m: "MatchString SemverRegex (Name ?tag)" by (simp add: regex_defs)
  have p: "NewSemverFromGitTag f ?tag = Inr \<lparr>Major = 1, Minor = 0, Patch = 0, BuildMetadata = []\<rparr>"
    by (simp add: parse_defs regex_defs)
  let ?r = "\<lparr>TagObjects = Inr [?tag], Head = head,
             Log = (\<lambda>since. Inr [\<lparr>Hash = h, Message = ''feat: x''\<rparr>])\<rparr>"
  have t: "TagObjects ?r = Inr [?tag]" by simp
  have l: "Log ?r (if \<not> IsZero \<lparr>Major = 1, Minor = 0, Patch = 0, BuildMetadata = []\<rparr>
                   then Some (Tagger_When ?tag) else None)
             = Inr [\<lparr>Hash = h, Message = ''feat: x''\<rparr>]" by simp
  show "snd (ComputeNewSemverNumber f NewTag
            \<lparr>releaseRules = \<lparr>Rules = Some [\<lparr>CommitType = ''feat'', ReleaseType = ''minor''\<rparr>,
                                               \<lparr>CommitType = ''feat'', ReleaseType = ''patch''\<rparr>]\<rparr>\<rparr> ?r)
       = Inr (\<lparr>Major = 1, Minor = 1, Patch = 1, BuildMetadata = []\<rparr>, True)"
    unfolding ComputeNewSemverNumber_one_tag [OF t m p l] by (simp add: range_of_def ex)
qed

theorem matching_rules_all_applied_witness:
  "MatchString conventionalCommitRegex ''fix: a bug''
   \<and> \<not> breakingChange_of ''fix: a bug''
   \<and> commitType_of ''fix: a bug'' = ''fix''
   \<and> bump_loop [\<lparr>CommitType = ''fix'', ReleaseType = ''patch''\<rparr>,
                 \<lparr>CommitType = ''feat'', ReleaseType = ''minor''\<rparr>,
                 \<lparr>CommitType = ''fix'', ReleaseType = ''major''\<rparr>]
        [\<lparr>Hash = ''0123456789abcdef'', Message = ''fix: a bug''\<rparr>]
        (\<lparr>Major = 1, Minor = 2, Patch = 3, BuildMetadata = []\<rparr>, False, [])
      = Inr (\<lparr>Major = 2, Minor = 0, Patch = 0, BuildMetadata = []\<rparr>, True,
             [''(0123456) patch: '' @ [CHR 0x22] @ ''fix: a bu'' @ [CHR 0x22], ''version is now 1.2.4'',
              ''(0123456) major: '' @ [CHR 0x22] @ ''fix: a bu'' @ [CHR 0x22], ''version is now 2.0.0''])"
proof -
  have m: "MatchString conventionalCommitRegex ''fix: a bug''"
    by (simp add: eval_defs)
  have b: "\<not> breakingChange_of ''fix: a bug''"
    by (simp add: eval_defs)
  have t: "commitType_of ''fix: a bug'' = ''fix''"
    by (simp add: eval_defs)
  show ?thesis
    using matching_rules_all_applied
      [of "\<lparr>Hash = ''0123456789abcdef'', Message = ''fix: a bug''\<rparr>"
          "[\<lparr>CommitType = ''fix'', ReleaseType = ''patch''\<rparr>,
            \<lparr>CommitType = ''feat'', ReleaseType = ''minor''\<rparr>,
            \<lparr>CommitType = ''fix'', ReleaseType = ''major''\<rparr>]"
          "[]" "\<lparr>Major = 1, Minor = 2, Patch = 3, BuildMetadata = []\<rparr>" False "[]"]
      m b t
    by (simp add: bump_loop_Nil shortMessage_def BumpPatch_def BumpMajor_def String_def
        NormalVersion_def fmt_d_def digit_char_def digits_of.simps)
qed

section \<open>The loop without the break\<close>

lemma apply_rules_no_rule:
  "list_all (\<lambda>rule. CommitType rule \<noteq> ct) rules \<Longrightarrow> apply_rules rules ct sh sm st = st"
proof (induction rules)
  case Nil
  show ?case by simp
next
  case (Cons rule rules)
  obtain v nr lg where st: "st = (v, nr, lg)" using prod_cases3 by blast
  from Cons.prems have ne: "ct \<noteq> CommitType rule"
    and rest: "list_all (\<lambda>rule. CommitType rule \<noteq> ct) rules" by auto
  show ?case unfolding st using ne Cons.IH [OF rest] by (simp add: st)
qed

lemma bump_loop_continue_inert:
  "\<forall>d \<in> set post. inert rules d \<Longrightarrow> bump_loop_continue rules post st = Inr st"
proof (induction post)
  case Nil
  show ?case by (simp add: bump_loop_continue_Nil)
next
  case (Cons d post)
  obtain v nr lg where st: "st = (v, nr, lg)" using prod_cases3 by blast
  from Cons.prems have d: "inert rules d" and rest: "\<forall>d \<in> set post. inert rules d" by simp_all
  show ?case
  proof (cases "MatchString conventionalCommitRegex (Message d)")
    case True
    with d have nb: "\<not> breakingChange_of (Message d)"
      and none: "list_all (\<lambda>rule. CommitType rule \<noteq> commitType_of (Message d)) rules"
      by (simp_all add: inert_def)
    show ?thesis
      unfolding st using nb Cons.IH [OF rest]
      by (simp add: bump_loop_continue_step [OF True] apply_rules_no_rule [OF none] st)
  next
    case False
    then show ?thesis unfolding st using Cons.IH [OF rest] by (simp add: bump_loop_continue_skip st)
  qed
qed

lemma short_circuit_inert_rest:
  assumes "\<forall>c \<in> set pre. \<not> breaking c" and "breaking c" and "\<forall>d \<in> set post. inert rules d"
  shows "bump_loop rules (pre @ c # post) st = bump_loop_continue rules (pre @ c # post) st"
proof -
  from bump_loop_at_breaking [OF assms(1,2), of rules st post] obtain v nr lg where
    pre: "bump_loop rules pre st = Inr (v, nr, lg)" and
    full: "bump_loop rules (pre @ c # post) st =
             Inr (BumpMajor v, True, lg @ [''('' @ take 7 (Hash c) @ '') breaking change''])"
    by blast
  from assms(2) have m: "MatchString conventionalCommitRegex (Message c)"
    and b: "breakingChange_of (Message c)" by (simp_all add: breaking_def)
  have "bump_loop_continue rules (pre @ c # post) st = bump_loop_continue rules (c # post) (v, nr, lg)"
    by (simp add: bump_loop_continue_append [of rules pre] bump_loop_continue_no_breaking [OF assms(1)] pre)
  also have "\<dots> = Inr (BumpMajor v, True, lg @ [''('' @ take 7 (Hash c) @ '') breaking change''])"
    using b by (simp add: bump_loop_continue_step [OF m] bump_loop_continue_inert [OF assms(3)])
  finally show ?thesis using full by simp
qed

text \<open>
  C3, as stated, fails: from 1.0.0 with the rules feat\<rightarrow>minor, fix\<rightarrow>patch and the history
  "feat!: breaking change", "fix: c", the loop that stops gives 2.0.0 and the loop that goes
  on gives 2.0.1.
\<close>

theorem short_circuit_changes_version:
  "bump_loop [\<lparr>CommitType = ''feat'', ReleaseType = ''minor''\<rparr>,
              \<lparr>CommitType = ''fix'', ReleaseType = ''patch''\<rparr>]
     [\<lparr>Hash = ''1111111111'', Message = ''feat!: breaking change''\<rparr>,
      \<lparr>Hash = ''2222222222'', Message = ''fix: c''\<rparr>]
     (\<lparr>Major = 1, Minor = 0, Patch = 0, BuildMetadata = []\<rparr>, False, [])
   = Inr (\<lparr>Major = 2, Minor = 0, Patch = 0, BuildMetadata = []\<rparr>, True,
          [''(1111111) breaking change''])
   \<and> bump_loop_continue [\<lparr>CommitType = ''feat'', ReleaseType = ''minor''\<rparr>,
              \<lparr>CommitType = ''fix'', ReleaseType = ''patch''\<rparr>]
     [\<lparr>Hash = ''1111111111'', Message = ''feat!: breaking change''\<rparr>,
      \<lparr>Hash = ''2222222222'', Message = ''fix: c''\<rparr>]
     (\<lparr>Major = 1, Minor = 0, Patch = 0, BuildMetadata = []\<rparr>, False, [])
   = Inr (\<lparr>Major = 2, Minor = 0, Patch = 1, BuildMetadata = []\<rparr>, True,
          [''(1111111) breaking change'',
           ''(2222222) patch: '' @ [CHR 0x22] @ ''fix: '' @ [CHR 0x22], ''version is now 2.0.1''])"
  by (simp add: bump_loop.simps bump_loop_continue.simps eval_defs digits_of.simps)

text \<open>
  C3, amended. The loop that stops at the first breaking commit computes what the loop that
  goes on computes on the history cut after that commit; on a history with no breaking
  commit the two loops are the same; and they are the same on the whole history when no
  commit after the first breaking one can trigger anything (none matches the grammar as a
  breaking change or with a type some rule has).
\<close>

theorem short_circuit_is_truncation:
  "((\<forall>c \<in> set history. \<not> breaking c) \<longrightarrow>
      bump_loop rules history st = bump_loop_continue rules history st)
   \<and> ((\<forall>c \<in> set pre. \<not> breaking c) \<and> breaking c \<longrightarrow>
      bump_loop rules (pre @ c # post) st = bump_loop_continue rules (pre @ [c]) st)
   \<and> ((\<forall>c \<in> set pre. \<not> breaking c) \<and> breaking c \<and> (\<forall>d \<in> set post. inert rules d) \<longrightarrow>
      bump_loop rules (pre @ c # post) st = bump_loop_continue rules (pre @ c # post) st)"
proof (intro conjI impI)
  assume "(\<forall>c \<in> set pre. \<not> breaking c) \<and> breaking c \<and> (\<forall>d \<in> set post. inert rules d)"
  then show "bump_loop rules (pre @ c # post) st = bump_loop_continue rules (pre @ c # post) st"
    using short_circuit_inert_rest [of pre c post rules st] by blast
next
  assume "\<forall>c \<in> set history. \<not> breaking c"
  then show "bump_loop rules history st = bump_loop_continue rules history st"
    by (simp add: bump_loop_continue_no_breaking)
next
  assume a: "(\<forall>c \<in> set pre. \<not> breaking c) \<and> breaking c"
  then have nb: "\<forall>c \<in> set pre. \<not> breaking c" and bc: "breaking c" by simp_all
  from bump_loop_at_breaking [OF nb bc, of rules st post] obtain v nr lg where
    pre: "bump_loop rules pre st = Inr (v, nr, lg)" and
    full: "bump_loop rules (pre @ c # post) st =
             Inr (BumpMajor v, True, lg @ [''('' @ take 7 (Hash c) @ '') breaking change''])"
    by blast
  from bc have m: "MatchString conventionalCommitRegex (Message c)"
    and b: "breakingChange_of (Message c)" by (simp_all add: breaking_def)
  have "bump_loop_continue rules (pre @ [c]) st = bump_loop_continue rules [c] (v, nr, lg)"
    by (simp add: bump_loop_continue_append bump_loop_continue_no_breaking [OF nb] pre)
  also have "\<dots> = Inr (BumpMajor v, True, lg @ [''('' @ take 7 (Hash c) @ '') breaking change''])"
    using b by (simp add: bump_loop_continue_step [OF m] bump_loop_continue_Nil)
  finally show "bump_loop rules (pre @ c # post) st = bump_loop_continue rules (pre @ [c]) st"
    using full by simp
qed

theorem short_circuit_is_truncation_witness:
  "\<not> breaking \<lparr>Hash = ''1111111111'', Message = ''fix: a''\<rparr>
   \<and> breaking \<lparr>Hash = ''2222222222'', Message = ''feat!: breaking change''\<rparr>
   \<and> bump_loop [\<lparr>CommitType = ''fix'', ReleaseType = ''patch''\<rparr>]
        ([\<lparr>Hash = ''1111111111'', Message = ''fix: a''\<rparr>]
          @ \<lparr>Hash = ''2222222222'', Message = ''feat!: breaking change''\<rparr>
          # [\<lparr>Hash = ''3333333333'', Message = ''fix: c''\<rparr>])
        (\<lparr>Major = 1, Minor = 0, Patch = 0, BuildMetadata = []\<rparr>, False, [])
     = bump_loop_continue [\<lparr>CommitType = ''fix'', ReleaseType = ''patch''\<rparr>]
        ([\<lparr>Hash = ''1111111111'', Message = ''fix: a''\<rparr>]
          @ [\<lparr>Hash = ''2222222222'', Message = ''feat!: breaking change''\<rparr>])
        (\<lparr>Major = 1, Minor = 0, Patch = 0, BuildMetadata = []\<rparr>, False, [])"
proof -
  have h1: "\<not> breaking \<lparr>Hash = ''1111111111'', Message = ''fix: a''\<rparr>"
    by (simp add: eval_defs)
  have h2: "breaking \<lparr>Hash = ''2222222222'', Message = ''feat!: breaking change''\<rparr>"
    by (simp add: eval_defs)
  show ?thesis
    using short_circuit_is_truncation
      [of "[]" "[\<lparr>CommitType = ''fix'', ReleaseType = ''patch''\<rparr>]"
          "(\<lparr>Major = 1, Minor = 0, Patch = 0, BuildMetadata = []\<rparr>, False, [])"
          "[\<lparr>Hash = ''1111111111'', Message = ''fix: a''\<rparr>]"
          "\<lparr>Hash = ''2222222222'', Message = ''feat!: breaking change''\<rparr>"
          "[\<lparr>Hash = ''3333333333'', Message = ''fix: c''\<rparr>]"] h1 h2
    by simp
qed

section \<open>The summary of a commit message\<close>

lemma characters_single_byte:
  "list_all single_byte message \<Longrightarrow> characters message = map (\<lambda>c. [c]) message"
proof (induction message)
  case Nil
  show ?case by simp
next
  case (Cons c cs)
  then have ih: "characters cs = map (\<lambda>c. [c]) cs" and cs: "list_all single_byte cs" by simp_all
  show ?case
  proof (cases cs)
    case Nil
    then show ?thesis using ih by simp
  next
    case (Cons d ds)
    with cs have "\<not> is_continuation d" by (simp add: single_byte_def is_continuation_def)
    then show ?thesis using ih Cons by simp
  qed
qed

lemma concat_singletons: "concat (map (\<lambda>c. [c]) xs) = xs"
  by (induction xs) simp_all

lemma summary_in_characters_single_byte:
  assumes "list_all single_byte message"
  shows "summary_in_characters message =
           (if length message > 60 then take 57 message @ ''...'' else butlast message)"
proof -
  have c: "characters message = map (\<lambda>c. [c]) message"
    by (rule characters_single_byte [OF assms])
  have t: "concat (take 57 (map (\<lambda>c. [c]) message)) = take 57 message"
    by (simp add: take_map concat_singletons)
  have b: "concat (butlast (map (\<lambda>c. [c]) message)) = butlast message"
    by (simp add: map_butlast [symmetric] concat_singletons)
  show ?thesis by (simp add: summary_in_characters_def c t b Let_def)
qed

text \<open>
  C8, as stated, fails on a message with a character of more than one byte: the lengths
  and the slices of \<open>shortMessage\<close> are in bytes. For "fix: caf" followed by the two
  bytes of an e with acute accent, the result ends with the first of the two bytes, which is
  not the message without its final character. A message of 59 characters in 62 bytes is
  truncated although it has no more than 60 characters, and the cut after 57 bytes falls
  inside a character.
\<close>

theorem shortMessage_cuts_bytes:
  "MatchString conventionalCommitRegex (''fix: caf'' @ [CHR 0xC3, CHR 0xA9])
   \<and> shortMessage (''fix: caf'' @ [CHR 0xC3, CHR 0xA9]) = Some (''fix: caf'' @ [CHR 0xC3])
   \<and> summary_in_characters (''fix: caf'' @ [CHR 0xC3, CHR 0xA9]) = ''fix: caf''
   \<and> MatchString conventionalCommitRegex
        (''fix: x, a message of fifty nine characters and sixty two'' @ [CHR 0xC3, CHR 0xA9, CHR 0xC3, CHR 0xA9, CHR 0xC3, CHR 0xA9])
   \<and> length (characters
        (''fix: x, a message of fifty nine characters and sixty two'' @ [CHR 0xC3, CHR 0xA9, CHR 0xC3, CHR 0xA9, CHR 0xC3, CHR 0xA9])) = 59
   \<and> shortMessage
        (''fix: x, a message of fifty nine characters and sixty two'' @ [CHR 0xC3, CHR 0xA9, CHR 0xC3, CHR 0xA9, CHR 0xC3, CHR 0xA9])
       = Some (''fix: x, a message of fifty nine characters and sixty two'' @ [CHR 0xC3] @ ''...'')
   \<and> summary_in_characters
        (''fix: x, a message of fifty nine characters and sixty two'' @ [CHR 0xC3, CHR 0xA9, CHR 0xC3, CHR 0xA9, CHR 0xC3, CHR 0xA9])
       = ''fix: x, a message of fifty nine characters and sixty two'' @ [CHR 0xC3, CHR 0xA9, CHR 0xC3, CHR 0xA9]"
  by (simp add: regex_defs shortMessage_def summary_in_characters_def is_continuation_def Let_def)

text \<open>
  C8, amended. For every message that matches the conventional-commit grammar,
  \<open>shortMessage\<close> returns (it does not panic) the first 57 bytes of the message followed
  by "..." when the message is longer than 60 bytes, and otherwise the message without its
  last byte. When every character of the message is a single byte, this is the first 57
  characters followed by "..." when the message is longer than 60 characters, and otherwise
  the message without its final character.
\<close>

theorem shortMessage_of_matching_message:
  assumes "MatchString conventionalCommitRegex message"
  shows "shortMessage message =
           Some (if length message > 60 then take 57 message @ ''...'' else butlast message)
    \<and> (list_all single_byte message \<longrightarrow>
          shortMessage message = Some (summary_in_characters message))"
proof (intro conjI impI)
  show b: "shortMessage message =
           Some (if length message > 60 then take 57 message @ ''...'' else butlast message)"
    by (rule shortMessage_match [OF assms])
  assume "list_all single_byte message"
  then show "shortMessage message = Some (summary_in_characters message)"
    by (simp only: b summary_in_characters_single_byte)
qed

theorem shortMessage_of_matching_message_witness:
  "MatchString conventionalCommitRegex ''fix: typo''
   \<and> list_all single_byte ''fix: typo''
   \<and> shortMessage ''fix: typo'' = Some ''fix: typ''
   \<and> summary_in_characters ''fix: typo'' = ''fix: typ''
   \<and> MatchString conventionalCommitRegex
        ''fix: x, the remaining words only make this message longer than sixty''
   \<and> shortMessage ''fix: x, the remaining words only make this message longer than sixty''
       = Some ''fix: x, the remaining words only make this message longer...''"
proof -
  have m1: "MatchString conventionalCommitRegex ''fix: typo''"
    by (simp add: regex_defs)
  have a1: "list_all single_byte ''fix: typo''"
    by (simp add: single_byte_def)
  have m2: "MatchString conventionalCommitRegex
        ''fix: x, the remaining words only make this message longer than sixty''"
    by (simp add: regex_defs)
  have s1: "shortMessage ''fix: typo'' = Some ''fix: typ''"
    using shortMessage_of_matching_message [OF m1] by simp
  have c1: "summary_in_characters ''fix: typo'' = ''fix: typ''"
    using shortMessage_of_matching_message [OF m1] a1 s1 by simp
  have s2: "shortMessage ''fix: x, the remaining words only make this message longer than sixty''
       = Some ''fix: x, the remaining words only make this message longer...''"
    using shortMessage_of_matching_message [OF m2] by simp
  show ?thesis using m1 a1 s1 c1 m2 s2 by blast
qed

section \<open>Validation of the release rules\<close>

lemma validate_each_iff: "validate_each rules \<longleftrightarrow> (\<forall>rule \<in> set rules. validate_ReleaseRule rule)"
  by (induction rules) auto

lemma validate_ReleaseRule_iff:
  "validate_ReleaseRule rule \<longleftrightarrow>
     CommitType rule \<in> set commit_types \<and> ReleaseType rule \<in> set release_types"
  by (auto simp add: validate_ReleaseRule_def commit_types_def release_types_def)

text \<open>
  C7, as stated, fails: an empty rule list is not rejected. The decoder stores the empty,
  non-nil slice for \<open>{"releaseRules": []}\<close>, the tag \<open>required\<close> accepts it, and there
  is no rule to validate.
\<close>

theorem ParseReleaseRules_accepts_empty_list:
  "ParseReleaseRules (Some \<lparr>Rules = Some []\<rparr>) = Inr \<lparr>Rules = Some []\<rparr>"
  by (simp add: ParseReleaseRules_def validate_ReleaseRules_def range_of_def)

text \<open>
  C7, amended. \<open>ParseReleaseRules\<close> fails if and only if the rule list is absent (no
  document was decoded, or the document has no rule array), or some rule's commit type is
  outside the eleven types, or some rule's severity is outside major, minor, patch. When it
  does not fail it returns the decoded rules as they are: an empty list is accepted, and so
  are two rules with the same commit type.
\<close>

theorem ParseReleaseRules_fails_iff:
  "(isl (ParseReleaseRules decoded) \<longleftrightarrow>
      decoded = None
      \<or> (\<exists>rs. decoded = Some rs \<and>
            (Rules rs = None
             \<or> (\<exists>rule \<in> set (range_of (Rules rs)).
                   CommitType rule \<notin> set [''build'', ''chore'', ''ci'', ''docs'', ''feat'', ''fix'',
                                          ''perf'', ''refactor'', ''revert'', ''style'', ''test'']
                   \<or> ReleaseType rule \<notin> set [''major'', ''minor'', ''patch'']))))
   \<and> (\<not> isl (ParseReleaseRules decoded) \<longrightarrow> Some (projr (ParseReleaseRules decoded)) = decoded)
   \<and> ParseReleaseRules (Some \<lparr>Rules = Some [\<lparr>CommitType = ''feat'', ReleaseType = ''minor''\<rparr>,
                                               \<lparr>CommitType = ''feat'', ReleaseType = ''patch''\<rparr>]\<rparr>)
       = Inr \<lparr>Rules = Some [\<lparr>CommitType = ''feat'', ReleaseType = ''minor''\<rparr>,
                            \<lparr>CommitType = ''feat'', ReleaseType = ''patch''\<rparr>]\<rparr>"
proof (intro conjI)
  show "isl (ParseReleaseRules decoded) \<longleftrightarrow>
      decoded = None
      \<or> (\<exists>rs. decoded = Some rs \<and>
            (Rules rs = None
             \<or> (\<exists>rule \<in> set (range_of (Rules rs)).
                   CommitType rule \<notin> set [''build'', ''chore'', ''ci'', ''docs'', ''feat'', ''fix'',
                                          ''perf'', ''refactor'', ''revert'', ''style'', ''test'']
                   \<or> ReleaseType rule \<notin> set [''major'', ''minor'', ''patch''])))"
  proof (cases decoded)
    case None
    then show ?thesis by (simp add: ParseReleaseRules_def)
  next
    case (Some rs)
    have "validate_each (range_of (Rules rs)) \<longleftrightarrow>
            (\<forall>rule \<in> set (range_of (Rules rs)).
               CommitType rule \<in> set commit_types \<and> ReleaseType rule \<in> set release_types)"
      by (simp add: validate_each_iff validate_ReleaseRule_iff)
    then show ?thesis
      unfolding Some commit_types_def release_types_def
      by (auto simp add: ParseReleaseRules_def validate_ReleaseRules_def)
  qed
next
  show "\<not> isl (ParseReleaseRules decoded) \<longrightarrow> Some (projr (ParseReleaseRules decoded)) = decoded"
    by (cases decoded) (auto simp add: ParseReleaseRules_def)
next
  show "ParseReleaseRules (Some \<lparr>Rules = Some [\<lparr>CommitType = ''feat'', ReleaseType = ''minor''\<rparr>,
                                               \<lparr>CommitType = ''feat'', ReleaseType = ''patch''\<rparr>]\<rparr>)
       = Inr \<lparr>Rules = Some [\<lparr>CommitType = ''feat'', ReleaseType = ''minor''\<rparr>,
                            \<lparr>CommitType = ''feat'', ReleaseType = ''patch''\<rparr>]\<rparr>"
    by (simp add: ParseReleaseRules_def validate_ReleaseRules_def range_of_def
        validate_ReleaseRule_def commit_types_def release_types_def)
qed

theorem ParseReleaseRules_fails_iff_witness:
  "isl (ParseReleaseRules (Some \<lparr>Rules = Some [\<lparr>CommitType = ''feat'', ReleaseType = ''minor''\<rparr>,
                                                 \<lparr>CommitType = ''feature'', ReleaseType = ''patch''\<rparr>]\<rparr>))
   \<and> \<not> isl (ParseReleaseRules (Some \<lparr>Rules = Some [\<lparr>CommitType = ''fix'', ReleaseType = ''patch''\<rparr>]\<rparr>))
   \<and> projr (ParseReleaseRules (Some \<lparr>Rules = Some [\<lparr>CommitType = ''fix'', ReleaseType = ''patch''\<rparr>]\<rparr>))
       = \<lparr>Rules = Some [\<lparr>CommitType = ''fix'', ReleaseType = ''patch''\<rparr>]\<rparr>"
proof -
  have bad: "isl (ParseReleaseRules (Some \<lparr>Rules = Some [\<lparr>CommitType = ''feat'', ReleaseType = ''minor''\<rparr>,
                                                 \<lparr>CommitType = ''feature'', ReleaseType = ''patch''\<rparr>]\<rparr>))"
    using ParseReleaseRules_fails_iff
      [of "Some \<lparr>Rules = Some [\<lparr>CommitType = ''feat'', ReleaseType = ''minor''\<rparr>,
                                \<lparr>CommitType = ''feature'', ReleaseType = ''patch''\<rparr>]\<rparr>"]
    by (auto simp add: range_of_def)
  have good: "\<not> isl (ParseReleaseRules (Some \<lparr>Rules = Some [\<lparr>CommitType = ''fix'', ReleaseType = ''patch''\<rparr>]\<rparr>))"
    using ParseReleaseRules_fails_iff
      [of "Some \<lparr>Rules = Some [\<lparr>CommitType = ''fix'', ReleaseType = ''patch''\<rparr>]\<rparr>"]
    by (simp add: range_of_def)
  have same: "projr (ParseReleaseRules (Some \<lparr>Rules = Some [\<lparr>CommitType = ''fix'', ReleaseType = ''patch''\<rparr>]\<rparr>))
       = \<lparr>Rules = Some [\<lparr>CommitType = ''fix'', ReleaseType = ''patch''\<rparr>]\<rparr>"
    using ParseReleaseRules_fails_iff
      [of "Some \<lparr>Rules = Some [\<lparr>CommitType = ''fix'', ReleaseType = ''patch''\<rparr>]\<rparr>"] good
    by simp
  show ?thesis using bad good same by blast
qed

section \<open>Bumps and precedence\<close>

lemma sint_succ:
  fixes x :: go_int
  assumes "sint x < 2 ^ 63 - 1"
  shows "sint (x + 1) = sint x + 1"
proof -
  have lo: "- (2 ^ 63) \<le> sint x" using sint_ge [of x] by simp
  have "sint (x + 1) = signed_take_bit 63 (sint x + 1)"
    by (simp add: sint_word_ariths)
  also have "\<dots> = sint x + 1"
    using lo assms by (intro signed_take_bit_int_eq_self) auto
  finally show ?thesis .
qed

lemma largest_component_bounds:
  "sint (Major v) \<le> largest_component v" "sint (Minor v) \<le> largest_component v"
  "sint (Patch v) \<le> largest_component v" "0 \<le> largest_component v"
  by (simp_all add: largest_component_def)

lemma BumpPatch_greater:
  assumes "largest_component v < 2 ^ 63 - 1"
  shows "Precedence (BumpPatch v) v = 1 \<and> largest_component (BumpPatch v) \<le> largest_component v + 1"
proof -
  have "sint (Patch v) < 2 ^ 63 - 1" using assms largest_component_bounds(3) [of v] by linarith
  then have "sint (Patch v + 1) = sint (Patch v) + 1" by (rule sint_succ)
  then show ?thesis
    by (auto simp add: Precedence_def BumpPatch_def word_sless_alt largest_component_def)
qed

lemma BumpMinor_greater:
  assumes "largest_component v < 2 ^ 63 - 1"
  shows "Precedence (BumpMinor v) v = 1 \<and> largest_component (BumpMinor v) \<le> largest_component v + 1"
proof -
  have "sint (Minor v) < 2 ^ 63 - 1" using assms largest_component_bounds(2) [of v] by linarith
  then have "sint (Minor v + 1) = sint (Minor v) + 1" by (rule sint_succ)
  then show ?thesis
    by (auto simp add: Precedence_def BumpMinor_def word_sless_alt largest_component_def)
qed

lemma BumpMajor_greater:
  assumes "largest_component v < 2 ^ 63 - 1"
  shows "Precedence (BumpMajor v) v = 1 \<and> largest_component (BumpMajor v) \<le> largest_component v + 1"
proof -
  have "sint (Major v) < 2 ^ 63 - 1" using assms largest_component_bounds(1) [of v] by linarith
  then have "sint (Major v + 1) = sint (Major v) + 1" by (rule sint_succ)
  then show ?thesis
    by (auto simp add: Precedence_def BumpMajor_def word_sless_alt largest_component_def)
qed

lemma Precedence_trans: "Precedence a b = 1 \<Longrightarrow> Precedence b c = 1 \<Longrightarrow> Precedence a c = 1"
proof -
  have tr: "lex_less x y \<Longrightarrow> lex_less y z \<Longrightarrow> lex_less x z" for x y z
    by (cases x; cases y; cases z) auto
  show "Precedence a b = 1 \<Longrightarrow> Precedence b c = 1 \<Longrightarrow> Precedence a c = 1"
    unfolding Precedence_greater using tr by blast
qed

lemma Precedence_refl: "Precedence a a = 0"
  by (simp add: Precedence_equal)

lemma apply_rules_advance:
  assumes "largest_component v + int (length rules) < 2 ^ 63"
  shows "\<exists>v' nr' lg'. apply_rules rules ct sh sm (v, nr, lg) = (v', nr', lg')
           \<and> largest_component v' \<le> largest_component v + int (length rules)
           \<and> ((v' = v \<and> nr' = nr) \<or> (Precedence v' v = 1 \<and> nr'))"
  using assms
proof (induction rules arbitrary: v nr lg)
  case Nil
  then show ?case by simp
next
  case (Cons rule rules)
  from Cons.prems have room: "largest_component v < 2 ^ 63 - 1"
    and rest: "largest_component v + int (length rules) < 2 ^ 63" by simp_all
  show ?case
  proof (cases "ct \<noteq> CommitType rule")
    case True
    from Cons.IH [OF rest, of nr lg] True show ?thesis by auto
  next
    case False
    define w where "w = bump_for (ReleaseType rule) v"
    define known where "known \<longleftrightarrow> ReleaseType rule = ''patch'' \<or> ReleaseType rule = ''minor''
      \<or> ReleaseType rule = ''major''"
    have w: "(\<not> known \<and> w = v) \<or> (known \<and> Precedence w v = 1)"
      and wl: "largest_component w \<le> largest_component v + 1"
      using BumpPatch_greater [OF room] BumpMinor_greater [OF room] BumpMajor_greater [OF room]
      by (auto simp add: w_def known_def bump_for_def)
    have "largest_component w + int (length rules) < 2 ^ 63"
      using wl Cons.prems by simp
    from Cons.IH [OF this] have
      ih: "\<exists>v' nr' lg'. apply_rules rules ct sh sm (w, n, l) = (v', nr', lg')
           \<and> largest_component v' \<le> largest_component w + int (length rules)
           \<and> ((v' = w \<and> nr' = n) \<or> (Precedence v' w = 1 \<and> nr'))" for n l
      by blast
    have unfold: "\<exists>l. apply_rules (rule # rules) ct sh sm (v, nr, lg) =
            apply_rules rules ct sh sm (w, nr \<or> known, l)"
      using False by (auto simp add: w_def known_def bump_for_def Let_def)
    then obtain l where l: "apply_rules (rule # rules) ct sh sm (v, nr, lg) =
            apply_rules rules ct sh sm (w, nr \<or> known, l)" by blast
    from ih [of "nr \<or> known" l] obtain v' nr' lg' where
      res: "apply_rules rules ct sh sm (w, nr \<or> known, l) = (v', nr', lg')"
      and bound: "largest_component v' \<le> largest_component w + int (length rules)"
      and adv: "(v' = w \<and> nr' = (nr \<or> known)) \<or> (Precedence v' w = 1 \<and> nr')" by blast
    have "(v' = v \<and> nr' = nr) \<or> (Precedence v' v = 1 \<and> nr')"
      using adv w Precedence_trans [of v' w v] by auto
    moreover have "largest_component v' \<le> largest_component v + int (length (rule # rules))"
      using bound wl by simp
    ultimately show ?thesis using l res by simp
  qed
qed

lemma bump_loop_advance:
  assumes "largest_component v + int (length history * Suc (length rules)) < 2 ^ 63"
  shows "\<exists>v' nr' lg'. bump_loop rules history (v, nr, lg) = Inr (v', nr', lg')
           \<and> ((v' = v \<and> nr' = nr) \<or> (Precedence v' v = 1 \<and> nr'))"
  using assms
proof (induction history arbitrary: v nr lg)
  case Nil
  show ?case by (simp add: bump_loop_Nil)
next
  case (Cons c history)
  have L0: "0 \<le> largest_component v" by (rule largest_component_bounds)
  define k where "k = int (length history * Suc (length rules))"
  have k0: "0 \<le> k" by (simp add: k_def)
  have r0: "0 \<le> int (length rules)" by simp
  have e: "int (length (c # history) * Suc (length rules)) = k + (int (length rules) + 1)"
    unfolding k_def by (simp add: algebra_simps)
  from Cons.prems have all: "largest_component v + k + int (length rules) + 1 < 2 ^ 63"
    unfolding e by simp
  have rest: "largest_component v + int (length history * Suc (length rules)) < 2 ^ 63"
    using all r0 unfolding k_def by linarith
  have one: "largest_component v + int (length rules) < 2 ^ 63"
    using all k0 by linarith
  have room: "largest_component v < 2 ^ 63 - 1"
    using all k0 r0 by linarith
  show ?case
  proof (cases "MatchString conventionalCommitRegex (Message c)")
    case False
    then show ?thesis using Cons.IH [OF rest, of nr lg] by (simp add: bump_loop_skip)
  next
    case True
    show ?thesis
    proof (cases "breakingChange_of (Message c)")
      case b: True
      then show ?thesis using BumpMajor_greater [OF room] by (auto simp add: bump_loop_step [OF True])
    next
      case b: False
      from apply_rules_advance [OF one, of "commitType_of (Message c)" "take 7 (Hash c)"
          "the (shortMessage (Message c))" nr lg]
      obtain w n l where
        ar: "apply_rules rules (commitType_of (Message c)) (take 7 (Hash c))
               (the (shortMessage (Message c))) (v, nr, lg) = (w, n, l)"
        and wl: "largest_component w \<le> largest_component v + int (length rules)"
        and adv: "(w = v \<and> n = nr) \<or> (Precedence w v = 1 \<and> n)" by blast
      have "largest_component w + int (length history * Suc (length rules)) < 2 ^ 63"
        using wl all unfolding k_def by linarith
      from Cons.IH [OF this, of n l] obtain v' nr' lg' where
        res: "bump_loop rules history (w, n, l) = Inr (v', nr', lg')"
        and adv': "(v' = w \<and> nr' = n) \<or> (Precedence v' w = 1 \<and> nr')" by blast
      have "(v' = v \<and> nr' = nr) \<or> (Precedence v' v = 1 \<and> nr')"
        using adv adv' Precedence_trans [of v' w v] by auto
      then show ?thesis using b res ar by (simp add: bump_loop_step [OF True])
    qed
  qed
qed

text \<open>
  C9, as stated, fails when a bump overflows: from 0.0.9223372036854775807 with the rule
  fix\<rightarrow>patch, the commit "fix: a" wraps the patch component around to
  -9223372036854775808; the flag is true and the result has lower precedence than the start.
\<close>

theorem bump_overflow_lowers_precedence:
  "bump_loop [\<lparr>CommitType = ''fix'', ReleaseType = ''patch''\<rparr>]
     [\<lparr>Hash = ''1111111111'', Message = ''fix: a''\<rparr>]
     (\<lparr>Major = 0, Minor = 0, Patch = 9223372036854775807, BuildMetadata = []\<rparr>, False, [])
   = Inr (\<lparr>Major = 0, Minor = 0, Patch = - 9223372036854775808, BuildMetadata = []\<rparr>, True,
          [''(1111111) patch: '' @ [CHR 0x22] @ ''fix: '' @ [CHR 0x22],
           ''version is now 0.0.-9223372036854775808''])
   \<and> Precedence \<lparr>Major = 0, Minor = 0, Patch = - 9223372036854775808, BuildMetadata = []\<rparr>
                  \<lparr>Major = 0, Minor = 0, Patch = 9223372036854775807, BuildMetadata = []\<rparr> = - 1"
  by (simp add: bump_loop.simps eval_defs digits_of.simps Precedence_def word_sless_alt)

text \<open>
  C9, amended. When the largest component of the starting version (or 0) plus the number of
  commits times one more than the number of rules is below \<open>2^63\<close>, so that no bump can
  overflow, the loop returns a version whose precedence is greater than or equal to that of
  the starting version, and strictly greater if and only if the returned flag is true.
\<close>

theorem result_not_below_start:
  assumes "largest_component v + int (length history * Suc (length rules)) < 2 ^ 63"
  shows "\<exists>v' newRelease logged'.
           bump_loop rules history (v, False, logged) = Inr (v', newRelease, logged')
           \<and> (Precedence v' v = 1 \<or> Precedence v' v = 0)
           \<and> (Precedence v' v = 1 \<longleftrightarrow> newRelease)"
proof -
  from bump_loop_advance [OF assms, of False logged] obtain v' nr' lg' where
    res: "bump_loop rules history (v, False, logged) = Inr (v', nr', lg')"
    and adv: "(v' = v \<and> nr' = False) \<or> (Precedence v' v = 1 \<and> nr')" by blast
  from adv have "(Precedence v' v = 1 \<or> Precedence v' v = 0) \<and> (Precedence v' v = 1 \<longleftrightarrow> nr')"
    using Precedence_refl [of v] by auto
  with res show ?thesis by blast
qed

theorem result_not_below_start_witness:
  "largest_component \<lparr>Major = 1, Minor = 4, Patch = 2, BuildMetadata = []\<rparr>
     + int (length [\<lparr>Hash = ''1111111111'', Message = ''fix: a''\<rparr>,
                    \<lparr>Hash = ''2222222222'', Message = ''merge branch''\<rparr>]
            * Suc (length [\<lparr>CommitType = ''fix'', ReleaseType = ''patch''\<rparr>])) < 2 ^ 63
   \<and> bump_loop [\<lparr>CommitType = ''fix'', ReleaseType = ''patch''\<rparr>]
        [\<lparr>Hash = ''1111111111'', Message = ''fix: a''\<rparr>,
         \<lparr>Hash = ''2222222222'', Message = ''merge branch''\<rparr>]
        (\<lparr>Major = 1, Minor = 4, Patch = 2, BuildMetadata = []\<rparr>, False, [])
      = Inr (\<lparr>Major = 1, Minor = 4, Patch = 3, BuildMetadata = []\<rparr>, True,
             [''(1111111) patch: '' @ [CHR 0x22] @ ''fix: '' @ [CHR 0x22], ''version is now 1.4.3''])
   \<and> Precedence \<lparr>Major = 1, Minor = 4, Patch = 3, BuildMetadata = []\<rparr>
                  \<lparr>Major = 1, Minor = 4, Patch = 2, BuildMetadata = []\<rparr> = 1"
proof -
  have h: "largest_component \<lparr>Major = 1, Minor = 4, Patch = 2, BuildMetadata = []\<rparr>
     + int (length [\<lparr>Hash = ''1111111111'', Message = ''fix: a''\<rparr>,
                    \<lparr>Hash = ''2222222222'', Message = ''merge branch''\<rparr>]
            * Suc (length [\<lparr>CommitType = ''fix'', ReleaseType = ''patch''\<rparr>])) < 2 ^ 63"
    by (simp add: largest_component_def)
  have run: "bump_loop [\<lparr>CommitType = ''fix'', ReleaseType = ''patch''\<rparr>]
        [\<lparr>Hash = ''1111111111'', Message = ''fix: a''\<rparr>,
         \<lparr>Hash = ''2222222222'', Message = ''merge branch''\<rparr>]
        (\<lparr>Major = 1, Minor = 4, Patch = 2, BuildMetadata = []\<rparr>, False, [])
      = Inr (\<lparr>Major = 1, Minor = 4, Patch = 3, BuildMetadata = []\<rparr>, True,
             [''(1111111) patch: '' @ [CHR 0x22] @ ''fix: '' @ [CHR 0x22], ''version is now 1.4.3''])"
    by (simp add: bump_loop.simps eval_defs digits_of.simps)
  show ?thesis
    using result_not_below_start [OF h, of "[]"] h run by auto
qed

section \<open>The latest tag\<close>

lemma Precedence_not_less_trans:
  "Precedence a b \<noteq> - 1 \<Longrightarrow> Precedence b c \<noteq> - 1 \<Longrightarrow> Precedence a c \<noteq> - 1"
proof -
  have tot: "\<not> lex_less x y \<Longrightarrow> \<not> lex_less y z \<Longrightarrow> \<not> lex_less x z" for x y z
    by (cases x; cases y; cases z) auto
  show "Precedence a b \<noteq> - 1 \<Longrightarrow> Precedence b c \<noteq> - 1 \<Longrightarrow> Precedence a c \<noteq> - 1"
    unfolding Precedence_less using tot by blast
qed

lemma Precedence_greater_not_less: "Precedence a b = 1 \<Longrightarrow> Precedence a b \<noteq> - 1"
  by simp

lemma Precedence_not_greater_flip: "Precedence a b \<noteq> 1 \<Longrightarrow> Precedence b a \<noteq> - 1"
  by (auto simp add: Precedence_greater Precedence_less)

lemma keep_greater_cases:
  "keep_greater f l t = l \<or> keep_greater f l t = t"
  by (simp add: keep_greater_def)

lemma keep_greater_upper:
  "Precedence (version_of f (keep_greater f l t)) (version_of f l) \<noteq> - 1"
  "Precedence (version_of f (keep_greater f l t)) (version_of f t) \<noteq> - 1"
  using Precedence_not_greater_flip [of "version_of f t" "version_of f l"]
  by (auto simp add: keep_greater_def Precedence_refl)

lemma foldl_keep_greater_mem: "foldl (keep_greater f) l ts \<in> set (l # ts)"
proof (induction ts arbitrary: l)
  case Nil
  show ?case by simp
next
  case (Cons t ts)
  from Cons.IH [of "keep_greater f l t"] keep_greater_cases [of f l t] show ?case by auto
qed

lemma foldl_keep_greater_upper:
  "t \<in> set (l # ts) \<Longrightarrow>
     Precedence (version_of f (foldl (keep_greater f) l ts)) (version_of f t) \<noteq> - 1"
proof (induction ts arbitrary: l t)
  case Nil
  then show ?case by (simp add: Precedence_refl)
next
  case (Cons u ts)
  have top: "Precedence (version_of f (foldl (keep_greater f) (keep_greater f l u) ts))
               (version_of f (keep_greater f l u)) \<noteq> - 1"
    by (rule Cons.IH [of "keep_greater f l u" "keep_greater f l u"]) simp
  from Cons.prems consider "t = l" | "t = u" | "t \<in> set ts" by auto
  then show ?case
  proof cases
    case 1
    then show ?thesis
      using Precedence_not_less_trans [OF top keep_greater_upper(1) [of f l u]] by simp
  next
    case 2
    then show ?thesis
      using Precedence_not_less_trans [OF top keep_greater_upper(2) [of f l u]] by simp
  next
    case 3
    then show ?thesis using Cons.IH [of t "keep_greater f l u"] by simp
  qed
qed

lemma latest_loop_fold:
  assumes "i \<noteq> 0" and "\<not> isl (NewSemverFromGitTag f l)"
    and "\<forall>t \<in> set ts. \<not> isl (NewSemverFromGitTag f t)"
  shows "latest_loop f i ts (Some l) = Inr (Some (foldl (keep_greater f) l ts))"
  using assms
proof (induction ts arbitrary: i l)
  case Nil
  show ?case by simp
next
  case (Cons t ts)
  from Cons.prems obtain current old where
    cur: "NewSemverFromGitTag f t = Inr current" and old: "NewSemverFromGitTag f l = Inr old"
    by (cases "NewSemverFromGitTag f t"; cases "NewSemverFromGitTag f l") auto
  have k: "\<not> isl (NewSemverFromGitTag f (keep_greater f l t))"
    using Cons.prems keep_greater_cases [of f l t] by auto
  have rest: "\<forall>t \<in> set ts. \<not> isl (NewSemverFromGitTag f t)" using Cons.prems by simp
  have "latest_loop f i (t # ts) (Some l) = latest_loop f (Suc i) ts (Some (keep_greater f l t))"
    using Cons.prems(1) cur old by (simp add: keep_greater_def version_of_def)
  also have "\<dots> = Inr (Some (foldl (keep_greater f) (keep_greater f l t) ts))"
    by (rule Cons.IH [OF _ k rest]) simp
  finally show ?case by simp
qed

lemma fetch_two_or_more:
  assumes tags: "TagObjects r = Inr tags"
    and two: "2 \<le> length (filter (\<lambda>tag. MatchString SemverRegex (Name tag)) tags)"
    and ok: "\<forall>tag \<in> set (filter (\<lambda>tag. MatchString SemverRegex (Name tag)) tags).
               \<not> isl (NewSemverFromGitTag f tag)"
  shows "snd (fetchLatestSemverTag f NewTag r) =
           Inr (reduce_pairwise f (filter (\<lambda>tag. MatchString SemverRegex (Name tag)) tags))"
proof -
  define sts where "sts = filter (\<lambda>tag. MatchString SemverRegex (Name tag)) tags"
  from two obtain t0 ts where sts: "sts = t0 # ts" and ne: "ts \<noteq> []"
    unfolding sts_def [symmetric] by (cases sts; cases "tl sts") auto
  from ok have ok0: "\<not> isl (NewSemverFromGitTag f t0)"
    and okr: "\<forall>t \<in> set ts. \<not> isl (NewSemverFromGitTag f t)"
    unfolding sts_def [symmetric] sts by simp_all
  from ok0 obtain v0 where v0: "NewSemverFromGitTag f t0 = Inr v0"
    by (cases "NewSemverFromGitTag f t0") auto
  have "latest_loop f 0 sts None = latest_loop f (Suc 0) ts (Some t0)"
    unfolding sts using v0 by simp
  also have "\<dots> = Inr (Some (foldl (keep_greater f) t0 ts))"
    by (rule latest_loop_fold [OF _ ok0 okr]) simp
  finally have loop: "latest_loop f 0 sts None = Inr (Some (reduce_pairwise f sts))"
    by (simp add: reduce_pairwise_def sts)
  have len: "length sts \<noteq> 0" "length sts \<noteq> 1" using sts ne by auto
  have "fetchLatestSemverTag f NewTag r =
          (case latest_loop f 0 sts None of
             Inl err \<Rightarrow> ([], Inl err)
           | Inr None \<Rightarrow> ([], Inl ErrNilPointer)
           | Inr (Some latestSemverTag) \<Rightarrow>
               ([''latest semver tag: '' @ Name latestSemverTag], Inr latestSemverTag))"
    using len by (simp add: fetchLatestSemverTag_def Let_def tags sts_def)
  then show ?thesis
    unfolding sts_def [symmetric] loop by simp
qed

text \<open>
  C4, as stated, fails for a tag that matches the pattern but has a component too large for
  \<open>int\<close>: \<open>strconv.Atoi\<close> reports a range error and the resolver returns that error
  instead of a tag.
\<close>

theorem matching_tag_out_of_range:
  "MatchString SemverRegex ''v1.0.0''
   \<and> MatchString SemverRegex ''v99999999999999999999.0.0''
   \<and> snd (fetchLatestSemverTag (\<lambda>_. True)
            (\<lambda>version hash. \<lparr>Name = String version, Target = hash, Tagger_When = 0\<rparr>)
            \<lparr>TagObjects = Inr [\<lparr>Name = ''v1.0.0'', Target = ''aaaa'', Tagger_When = 1\<rparr>,
                               \<lparr>Name = ''v99999999999999999999.0.0'', Target = ''bbbb'',
                                Tagger_When = 2\<rparr>],
             Head = Inr ''bbbb'', Log = (\<lambda>_. Inr [])\<rparr>)
       = Inl (Wrap ''FetchLatestSemverTag: failed to build semver from tag''
               (Wrap ''NewSemverFromGitTag: failed to convert major component'' ErrRange))"
proof -
  have m1: "MatchString SemverRegex ''v1.0.0''" by (simp add: regex_defs)
  have m2: "MatchString SemverRegex ''v99999999999999999999.0.0''" by (simp add: regex_defs)
  have p1: "NewSemverFromGitTag (\<lambda>_. True) \<lparr>Name = ''v1.0.0'', Target = ''aaaa'', Tagger_When = 1\<rparr>
              = Inr \<lparr>Major = 1, Minor = 0, Patch = 0, BuildMetadata = []\<rparr>"
    by (simp add: parse_defs regex_defs)
  have p2: "NewSemverFromGitTag (\<lambda>_. True)
              \<lparr>Name = ''v99999999999999999999.0.0'', Target = ''bbbb'', Tagger_When = 2\<rparr>
              = Inl (Wrap ''NewSemverFromGitTag: failed to convert major component'' ErrRange)"
    by (simp add: parse_defs regex_defs)
  show ?thesis
    using m1 m2 by (simp add: fetchLatestSemverTag_def p1 p2)
qed

text \<open>
  C4, amended. When two or more tags match the pattern and each of them converts to a
  version (every numeric component fits \<open>int\<close>), the resolver returns the pairwise
  reduction of the matching tags in iteration order: the retained tag is replaced only by a
  tag of strictly greater precedence, so that of two tags of equal precedence the one seen
  first is kept. The result is one of the tags and no tag has greater precedence. Given the
  tags v1.0.0, v1.2.0, v2.0.0 the resolver returns v2.0.0.
\<close>

theorem latest_tag_is_pairwise_reduction:
  assumes "TagObjects r = Inr tags"
    and "semverTags = filter (\<lambda>tag. MatchString SemverRegex (Name tag)) tags"
    and "2 \<le> length semverTags"
    and "\<forall>tag \<in> set semverTags. \<not> isl (NewSemverFromGitTag f tag)"
  shows "snd (fetchLatestSemverTag f NewTag r) = Inr (reduce_pairwise f semverTags)
    \<and> reduce_pairwise f semverTags \<in> set semverTags
    \<and> (\<forall>tag \<in> set semverTags.
          Precedence (version_of f (reduce_pairwise f semverTags)) (version_of f tag) \<noteq> - 1)
    \<and> snd (fetchLatestSemverTag f NewTag
              \<lparr>TagObjects = Inr [\<lparr>Name = ''v1.0.0'', Target = h1, Tagger_When = w1\<rparr>,
                                 \<lparr>Name = ''v1.2.0'', Target = h2, Tagger_When = w2\<rparr>,
                                 \<lparr>Name = ''v2.0.0'', Target = h3, Tagger_When = w3\<rparr>],
               Head = head, Log = log\<rparr>)
        = Inr \<lparr>Name = ''v2.0.0'', Target = h3, Tagger_When = w3\<rparr>
    \<and> snd (fetchLatestSemverTag f NewTag
              \<lparr>TagObjects = Inr [\<lparr>Name = ''v1.0.0'', Target = h1, Tagger_When = w1\<rparr>,
                                 \<lparr>Name = ''1.0.0+b7'', Target = h2, Tagger_When = w2\<rparr>],
               Head = head, Log = log\<rparr>)
        = Inr \<lparr>Name = ''v1.0.0'', Target = h1, Tagger_When = w1\<rparr>"
proof (intro conjI)
  show "snd (fetchLatestSemverTag f NewTag r) = Inr (reduce_pairwise f semverTags)"
    using fetch_two_or_more [of r tags f NewTag] assms by simp
next
  from assms(3) obtain t0 ts where sts: "semverTags = t0 # ts"
    by (cases semverTags) auto
  show "reduce_pairwise f semverTags \<in> set semverTags"
    using foldl_keep_greater_mem [of f t0 ts] by (simp add: reduce_pairwise_def sts)
  show "\<forall>tag \<in> set semverTags.
          Precedence (version_of f (reduce_pairwise f semverTags)) (version_of f tag) \<noteq> - 1"
    using foldl_keep_greater_upper [of _ t0 ts f] by (simp add: reduce_pairwise_def sts)
next
  have p: "NewSemverFromGitTag f \<lparr>Name = ''v1.0.0'', Target = h1, Tagger_When = w1\<rparr>
             = Inr \<lparr>Major = 1, Minor = 0, Patch = 0, BuildMetadata = []\<rparr>"
    "NewSemverFromGitTag f \<lparr>Name = ''v1.2.0'', Target = h2, Tagger_When = w2\<rparr>
             = Inr \<lparr>Major = 1, Minor = 2, Patch = 0, BuildMetadata = []\<rparr>"
    "NewSemverFromGitTag f \<lparr>Name = ''v2.0.0'', Target = h3, Tagger_When = w3\<rparr>
             = Inr \<lparr>Major = 2, Minor = 0, Patch = 0, BuildMetadata = []\<rparr>"
    by (simp_all add: parse_defs regex_defs)
  have m: "MatchString SemverRegex ''v1.0.0''" "MatchString SemverRegex ''v1.2.0''"
    "MatchString SemverRegex ''v2.0.0''"
    by (simp_all add: regex_defs)
  show "snd (fetchLatestSemverTag f NewTag
              \<lparr>TagObjects = Inr [\<lparr>Name = ''v1.0.0'', Target = h1, Tagger_When = w1\<rparr>,
                                 \<lparr>Name = ''v1.2.0'', Target = h2, Tagger_When = w2\<rparr>,
                                 \<lparr>Name = ''v2.0.0'', Target = h3, Tagger_When = w3\<rparr>],
               Head = head, Log = log\<rparr>)
        = Inr \<lparr>Name = ''v2.0.0'', Target = h3, Tagger_When = w3\<rparr>"
    using m by (simp add: fetchLatestSemverTag_def p Precedence_def word_sless_alt)
next
  have p: "NewSemverFromGitTag f \<lparr>Name = ''v1.0.0'', Target = h1, Tagger_When = w1\<rparr>
             = Inr \<lparr>Major = 1, Minor = 0, Patch = 0, BuildMetadata = []\<rparr>"
    "NewSemverFromGitTag f \<lparr>Name = ''1.0.0+b7'', Target = h2, Tagger_When = w2\<rparr>
             = Inr \<lparr>Major = 1, Minor = 0, Patch = 0, BuildMetadata = []\<rparr>"
    by (simp_all add: parse_defs regex_defs)
  have m: "MatchString SemverRegex ''v1.0.0''" "MatchString SemverRegex ''1.0.0+b7''"
    by (simp_all add: regex_defs)
  show "snd (fetchLatestSemverTag f NewTag
              \<lparr>TagObjects = Inr [\<lparr>Name = ''v1.0.0'', Target = h1, Tagger_When = w1\<rparr>,
                                 \<lparr>Name = ''1.0.0+b7'', Target = h2, Tagger_When = w2\<rparr>],
               Head = head, Log = log\<rparr>)
        = Inr \<lparr>Name = ''v1.0.0'', Target = h1, Tagger_When = w1\<rparr>"
    using m by (simp add: fetchLatestSemverTag_def p Precedence_def word_sless_alt)
qed

theorem latest_tag_is_pairwise_reduction_witness:
  "filter (\<lambda>tag. MatchString SemverRegex (Name tag))
     [\<lparr>Name = ''v1.9.0'', Target = ''aaaa'', Tagger_When = 1\<rparr>,
      \<lparr>Name = ''latest'', Target = ''bbbb'', Tagger_When = 2\<rparr>,
      \<lparr>Name = ''v1.10.0'', Target = ''cccc'', Tagger_When = 3\<rparr>,
      \<lparr>Name = ''1.10.0'', Target = ''dddd'', Tagger_When = 4\<rparr>]
   = [\<lparr>Name = ''v1.9.0'', Target = ''aaaa'', Tagger_When = 1\<rparr>,
      \<lparr>Name = ''v1.10.0'', Target = ''cccc'', Tagger_When = 3\<rparr>,
      \<lparr>Name = ''1.10.0'', Target = ''dddd'', Tagger_When = 4\<rparr>]
   \<and> snd (fetchLatestSemverTag (\<lambda>_. True)
            (\<lambda>version hash. \<lparr>Name = String version, Target = hash, Tagger_When = 0\<rparr>)
            \<lparr>TagObjects = Inr [\<lparr>Name = ''v1.9.0'', Target = ''aaaa'', Tagger_When = 1\<rparr>,
                               \<lparr>Name = ''latest'', Target = ''bbbb'', Tagger_When = 2\<rparr>,
                               \<lparr>Name = ''v1.10.0'', Target = ''cccc'', Tagger_When = 3\<rparr>,
                               \<lparr>Name = ''1.10.0'', Target = ''dddd'', Tagger_When = 4\<rparr>],
             Head = Inr ''dddd'', Log = (\<lambda>_. Inr [])\<rparr>)
       = Inr \<lparr>Name = ''v1.10.0'', Target = ''cccc'', Tagger_When = 3\<rparr>"
proof -
  let ?t1 = "\<lparr>Name = ''v1.9.0'', Target = ''aaaa'', Tagger_When = 1\<rparr>"
  let ?t2 = "\<lparr>Name = ''latest'', Target = ''bbbb'', Tagger_When = 2\<rparr>"
  let ?t3 = "\<lparr>Name = ''v1.10.0'', Target = ''cccc'', Tagger_When = 3\<rparr>"
  let ?t4 = "\<lparr>Name = ''1.10.0'', Target = ''dddd'', Tagger_When = 4\<rparr>"
  let ?r = "\<lparr>TagObjects = Inr [?t1, ?t2, ?t3, ?t4], Head = Inr ''dddd'', Log = (\<lambda>_. Inr [])\<rparr>"
  have m: "MatchString SemverRegex ''v1.9.0''" "\<not> MatchString SemverRegex ''latest''"
    "MatchString SemverRegex ''v1.10.0''" "MatchString SemverRegex ''1.10.0''"
    by (simp_all add: regex_defs)
  have p: "NewSemverFromGitTag (\<lambda>_. True) ?t1 = Inr \<lparr>Major = 1, Minor = 9, Patch = 0, BuildMetadata = []\<rparr>"
    "NewSemverFromGitTag (\<lambda>_. True) ?t3 = Inr \<lparr>Major = 1, Minor = 10, Patch = 0, BuildMetadata = []\<rparr>"
    "NewSemverFromGitTag (\<lambda>_. True) ?t4 = Inr \<lparr>Major = 1, Minor = 10, Patch = 0, BuildMetadata = []\<rparr>"
    by (simp_all add: parse_defs regex_defs)
  have h1: "TagObjects ?r = Inr [?t1, ?t2, ?t3, ?t4]" by simp
  have h2: "[?t1, ?t3, ?t4] = filter (\<lambda>tag. MatchString SemverRegex (Name tag)) [?t1, ?t2, ?t3, ?t4]"
    using m by simp
  have h3: "2 \<le> length [?t1, ?t3, ?t4]" by simp
  have h4: "\<forall>tag \<in> set [?t1, ?t3, ?t4]. \<not> isl (NewSemverFromGitTag (\<lambda>_. True) tag)"
    using p by simp
  have red: "reduce_pairwise (\<lambda>_. True) [?t1, ?t3, ?t4] = ?t3"
    by (simp add: reduce_pairwise_def keep_greater_def version_of_def p Precedence_def word_sless_alt)
  have res: "snd (fetchLatestSemverTag (\<lambda>_. True)
            (\<lambda>version hash. \<lparr>Name = String version, Target = hash, Tagger_When = 0\<rparr>) ?r)
       = Inr (reduce_pairwise (\<lambda>_. True) [?t1, ?t3, ?t4])"
    using latest_tag_is_pairwise_reduction [OF h1 h2 h3 h4,
        of "(\<lambda>version hash. \<lparr>Name = String version, Target = hash, Tagger_When = 0\<rparr>)"]
    by (rule conjunct1)
  show ?thesis
  proof (intro conjI)
    show "filter (\<lambda>tag. MatchString SemverRegex (Name tag)) [?t1, ?t2, ?t3, ?t4] = [?t1, ?t3, ?t4]"
      by (rule h2 [symmetric])
    show "snd (fetchLatestSemverTag (\<lambda>_. True)
            (\<lambda>version hash. \<lparr>Name = String version, Target = hash, Tagger_When = 0\<rparr>) ?r)
       = Inr ?t3"
      by (simp only: res red)
  qed
qed

end
